theory Spec2Isabelle
  imports Main "HOL-Library.Word"
begin

unbundle bit_operations_syntax

section \<open>The heap of \<open>mm.c\<close>\<close>

text \<open>
  The allocator of \<open>src/mm.c\<close> keeps all of its bookkeeping inside the heap it manages:
  a header and a footer word per block, and two link pointers in the first bytes of a free
  block. The embedding therefore keeps the heap as a byte-addressed store. The layout
  comment at the top of \<open>mm.c\<close> gives four bytes to the header, four to each link and has
  the payload start at byte 12 of the block, so pointers, \<open>size_t\<close> and \<open>unsigned int\<close> are
  all 32 bits wide here (the ILP32 target of the original assignment), and words are
  stored little-endian.

  A store is a total function: reading an address outside the heap gives whatever the
  function holds there, where the C program would read foreign memory or trap. The one
  function whose addresses do not come from block pointers is \<open>mm_init\<close>, which uses the
  result of \<open>mem_sbrk\<close> unchecked; its stores are checked against the bounds of the heap.
\<close>

type_synonym addr = "32 word"
type_synonym byte = "8 word"

record heap_state =
  mem :: "addr \<Rightarrow> byte"
  first_seg :: "nat \<Rightarrow> addr"
  last_seg :: "nat \<Rightarrow> addr"
  brk :: addr
  max_addr :: addr
  heap_lo :: addr

definition NULL :: addr where
  "NULL = 0"

definition FREE :: "32 word" where
  "FREE = 0"

definition ALLOCATED :: "32 word" where
  "ALLOCATED = 1"

definition WORD :: "32 word" where
  "WORD = 4"

definition OVERHEAD :: "32 word" where
  "OVERHEAD = 16"

definition MAX_SEG :: nat where
  "MAX_SEG = 13"

definition ALIGN :: "32 word \<Rightarrow> 32 word" where
  "ALIGN sz = (sz + 7) AND NOT 7"

subsection \<open>Loads and stores\<close>

definition load32 :: "(addr \<Rightarrow> byte) \<Rightarrow> addr \<Rightarrow> 32 word" where
  "load32 m a =
     ucast (m a) OR push_bit 8 (ucast (m (a + 1))) OR
     push_bit 16 (ucast (m (a + 2))) OR push_bit 24 (ucast (m (a + 3)))"

definition store32 :: "(addr \<Rightarrow> byte) \<Rightarrow> addr \<Rightarrow> 32 word \<Rightarrow> addr \<Rightarrow> byte" where
  "store32 m a v =
     m(a := ucast v, a + 1 := ucast (drop_bit 8 v), a + 2 := ucast (drop_bit 16 v),
       a + 3 := ucast (drop_bit 24 v))"

text \<open>\<open>VALUE(p)\<close> as an rvalue and as the target of an assignment.\<close>

definition VALUE :: "heap_state \<Rightarrow> addr \<Rightarrow> 32 word" where
  "VALUE s p = load32 (mem s) p"

definition set_VALUE :: "addr \<Rightarrow> 32 word \<Rightarrow> heap_state \<Rightarrow> heap_state" where
  "set_VALUE p v s = s\<lparr>mem := store32 (mem s) p v\<rparr>"

definition PACK :: "32 word \<Rightarrow> 32 word \<Rightarrow> 32 word" where
  "PACK sz state = sz OR state"

definition UNPACK_SIZE :: "heap_state \<Rightarrow> addr \<Rightarrow> 32 word" where
  "UNPACK_SIZE s p = VALUE s p AND NOT 7"

definition UNPACK_STATE :: "heap_state \<Rightarrow> addr \<Rightarrow> 32 word" where
  "UNPACK_STATE s p = VALUE s p AND 1"

definition REPACK_SIZE :: "addr \<Rightarrow> 32 word \<Rightarrow> heap_state \<Rightarrow> heap_state" where
  "REPACK_SIZE p sz s = set_VALUE p (PACK sz (UNPACK_STATE s p)) s"

definition REPACK_STATE :: "addr \<Rightarrow> 32 word \<Rightarrow> heap_state \<Rightarrow> heap_state" where
  "REPACK_STATE p state s = set_VALUE p (PACK (UNPACK_SIZE s p) state) s"

subsection \<open>Pointer arithmetic on block pointers\<close>

definition HEADER :: "addr \<Rightarrow> addr" where
  "HEADER bp = bp - OVERHEAD + WORD"

definition FOOTER :: "heap_state \<Rightarrow> addr \<Rightarrow> addr" where
  "FOOTER s bp = bp - OVERHEAD + UNPACK_SIZE s (HEADER bp)"

definition NEXT_HEADER :: "heap_state \<Rightarrow> addr \<Rightarrow> addr" where
  "NEXT_HEADER s bp = bp - OVERHEAD + WORD + UNPACK_SIZE s (HEADER bp)"

definition PREV_FOOTER :: "addr \<Rightarrow> addr" where
  "PREV_FOOTER bp = bp - OVERHEAD"

definition NEXT_BLOCK :: "heap_state \<Rightarrow> addr \<Rightarrow> addr" where
  "NEXT_BLOCK s bp = bp + UNPACK_SIZE s (HEADER bp)"

definition PREV_BLOCK :: "heap_state \<Rightarrow> addr \<Rightarrow> addr" where
  "PREV_BLOCK s bp = bp - UNPACK_SIZE s (PREV_FOOTER bp)"

definition NEXT_FREE :: "heap_state \<Rightarrow> addr \<Rightarrow> addr" where
  "NEXT_FREE s bp = VALUE s (bp - WORD)"

definition PREV_FREE :: "heap_state \<Rightarrow> addr \<Rightarrow> addr" where
  "PREV_FREE s bp = VALUE s (bp - 2 * WORD)"

definition set_NEXT_FREE :: "addr \<Rightarrow> addr \<Rightarrow> heap_state \<Rightarrow> heap_state" where
  "set_NEXT_FREE bp v s = set_VALUE (bp - WORD) v s"

definition set_PREV_FREE :: "addr \<Rightarrow> addr \<Rightarrow> heap_state \<Rightarrow> heap_state" where
  "set_PREV_FREE bp v s = set_VALUE (bp - 2 * WORD) v s"

subsection \<open>The heap collaborator\<close>

text \<open>
  Modelled from the spec: \<open>mem_sbrk\<close> of \<open>memlib.c\<close>, which is not part of the sources.
  The spec's \<open>heap_extend(n)\<close> appends \<open>n\<close> bytes to the end of the heap and returns the
  base address of the new region, or a failure value; \<open>mm.c\<close> tests the result against
  \<open>(char *)-1\<close>. The heap starts at \<open>heap_lo\<close>, ends at \<open>brk\<close> and may grow up to \<open>max_addr\<close>;
  a request that does not fit fails and changes nothing.
\<close>

definition sbrk_fails :: "heap_state \<Rightarrow> 32 word \<Rightarrow> bool" where
  "sbrk_fails s incr \<longleftrightarrow> unat (max_addr s) < unat (brk s) + unat incr"

definition mem_sbrk :: "32 word \<Rightarrow> heap_state \<Rightarrow> addr \<times> heap_state" where
  "mem_sbrk incr s =
     (if sbrk_fails s incr then (- 1, s) else (brk s, s\<lparr>brk := brk s + incr\<rparr>))"

text \<open>The word of \<open>WORD\<close> bytes at address \<open>a\<close> lies inside the heap.\<close>

definition in_heap :: "heap_state \<Rightarrow> addr \<Rightarrow> bool" where
  "in_heap s a \<longleftrightarrow> unat (heap_lo s) \<le> unat a \<and> unat a + unat WORD \<le> unat (brk s)"

subsection \<open>The segregated free lists\<close>

function list_find_loop :: "nat \<Rightarrow> 32 word \<Rightarrow> 32 word \<Rightarrow> nat" where
  "list_find_loop seg limit sz =
     (if seg < MAX_SEG
      then (if sz \<le> limit then seg else list_find_loop (seg + 1) (limit * 2) sz)
      else 0)"
  by pat_completeness auto
termination
  by (relation "measure (\<lambda>(seg, limit, sz). MAX_SEG - seg)") auto

definition list_find :: "32 word \<Rightarrow> nat" where
  "list_find sz = list_find_loop 1 2 sz"

definition list_add :: "addr \<Rightarrow> heap_state \<Rightarrow> heap_state" where
  "list_add bp s =
     (let seg = list_find (UNPACK_SIZE s (HEADER bp)) in
      if last_seg s seg = NULL
      then
        (let s1 = s\<lparr>last_seg := (last_seg s)(seg := bp)\<rparr>;
             s2 = s1\<lparr>first_seg := (first_seg s1)(seg := bp)\<rparr>;
             s3 = set_NEXT_FREE bp NULL s2
         in set_PREV_FREE bp NULL s3)
      else
        (let s1 = set_NEXT_FREE (last_seg s seg) bp s;
             s2 = set_PREV_FREE bp (last_seg s1 seg) s1;
             s3 = set_NEXT_FREE bp NULL s2
         in s3\<lparr>last_seg := (last_seg s3)(seg := bp)\<rparr>))"

definition list_remove :: "addr \<Rightarrow> heap_state \<Rightarrow> heap_state" where
  "list_remove bp s =
     (let prev = PREV_FREE s bp;
          next = NEXT_FREE s bp;
          seg = list_find (UNPACK_SIZE s (HEADER bp));
          s1 = (if prev \<noteq> NULL then set_NEXT_FREE prev next s
                else s\<lparr>first_seg := (first_seg s)(seg := next)\<rparr>)
      in if next \<noteq> NULL then set_PREV_FREE next prev s1
         else s1\<lparr>last_seg := (last_seg s1)(seg := prev)\<rparr>)"

subsection \<open>Coalescing and splitting\<close>

definition coalesce :: "addr \<Rightarrow> heap_state \<Rightarrow> addr \<times> heap_state" where
  "coalesce bp s =
     (let left =
            (if UNPACK_STATE s (PREV_FOOTER bp) = FREE
             then
               (let b = PREV_BLOCK s bp;
                    t1 = list_remove b s;
                    newsize = UNPACK_SIZE t1 (HEADER b) + UNPACK_SIZE t1 (NEXT_HEADER t1 b);
                    t2 = REPACK_SIZE (HEADER b) newsize t1;
                    t3 = REPACK_SIZE (FOOTER t2 b) newsize t2
                in (b, t3))
             else (bp, s));
          bp1 = fst left;
          s1 = snd left;
          s2 =
            (if UNPACK_STATE s1 (NEXT_HEADER s1 bp1) = FREE
             then
               (let t1 = list_remove (NEXT_BLOCK s1 bp1) s1;
                    newsize = UNPACK_SIZE t1 (HEADER bp1) + UNPACK_SIZE t1 (NEXT_HEADER t1 bp1);
                    t2 = REPACK_SIZE (HEADER bp1) newsize t1
                in REPACK_SIZE (FOOTER t2 bp1) newsize t2)
             else s1)
      in (bp1, list_add bp1 s2))"

definition split :: "addr \<Rightarrow> 32 word \<Rightarrow> heap_state \<Rightarrow> heap_state" where
  "split bp sz s =
     (let oldsize = UNPACK_SIZE s (HEADER bp) in
      if oldsize < sz + OVERHEAD then s
      else
        (let s1 = set_VALUE (HEADER bp) (PACK sz ALLOCATED) s;
             s2 = set_VALUE (FOOTER s1 bp) (PACK sz ALLOCATED) s1;
             s3 = set_VALUE (NEXT_HEADER s2 bp) (PACK (oldsize - sz) FREE) s2;
             s4 = set_VALUE (FOOTER s3 (NEXT_BLOCK s3 bp)) (PACK (oldsize - sz) FREE) s3
         in snd (coalesce (NEXT_BLOCK s4 bp) s4)))"

subsection \<open>Placement\<close>

text \<open>
  The walk along one free list follows \<open>NEXT_FREE\<close> through the store and need not end
  (a cyclic list); the result \<open>None\<close> stands for a walk that never returns. \<open>Some NULL\<close>
  is the loop running off the end of the list.
\<close>

partial_function (option) find_in_list :: "heap_state \<Rightarrow> 32 word \<Rightarrow> addr \<Rightarrow> addr option" where
  "find_in_list s sz bp =
     (if bp \<noteq> NULL
      then (if sz \<le> UNPACK_SIZE s (HEADER bp) then Some bp
            else find_in_list s sz (NEXT_FREE s bp))
      else Some NULL)"

declare find_in_list.simps [code]

function find_from_seg :: "heap_state \<Rightarrow> 32 word \<Rightarrow> nat \<Rightarrow> addr option" where
  "find_from_seg s sz seg =
     (if seg < MAX_SEG
      then (case find_in_list s sz (first_seg s seg) of
              None \<Rightarrow> None
            | Some bp \<Rightarrow> if bp \<noteq> NULL then Some bp else find_from_seg s sz (seg + 1))
      else Some NULL)"
  by pat_completeness auto
termination
  by (relation "measure (\<lambda>(s, sz, seg). MAX_SEG - seg)") auto

definition find_block :: "heap_state \<Rightarrow> 32 word \<Rightarrow> addr option" where
  "find_block s sz =
     (let seg = list_find sz in
      case (if 0 < seg then find_from_seg s sz seg else Some NULL) of
        None \<Rightarrow> None
      | Some bp \<Rightarrow> if bp \<noteq> NULL then Some bp else find_in_list s sz (first_seg s 0))"

definition new_block :: "32 word \<Rightarrow> heap_state \<Rightarrow> addr \<times> heap_state" where
  "new_block sz s =
     (let r = mem_sbrk sz s;
          p = fst r;
          s1 = snd r
      in if p = - 1 then (NULL, s1)
         else
           (let bp = p + (OVERHEAD - 2 * WORD);
                s2 = set_VALUE (HEADER bp) (PACK sz FREE) s1;
                s3 = set_VALUE (FOOTER s2 bp) (PACK sz FREE) s2;
                s4 = set_VALUE (NEXT_HEADER s3 bp) (PACK 0 ALLOCATED) s3
            in coalesce bp s4))"

subsection \<open>The public interface\<close>

function mm_init_lists :: "nat \<Rightarrow> heap_state \<Rightarrow> heap_state" where
  "mm_init_lists seg s =
     (if seg < MAX_SEG
      then mm_init_lists (seg + 1)
             (s\<lparr>first_seg := (first_seg s)(seg := NULL), last_seg := (last_seg s)(seg := NULL)\<rparr>)
      else s)"
  by pat_completeness auto
termination
  by (relation "measure (\<lambda>(seg, s). MAX_SEG - seg)") auto

text \<open>
  \<open>mm_init\<close> does not test the result of \<open>mem_sbrk\<close>: its three stores go through whatever
  pointer came back. After a failure that pointer is \<open>(char *)-1\<close>, and the first store
  (line 308) is to address \<open>-1 + OVERHEAD - OVERHEAD + WORD = 3\<close>. A store outside the heap
  is undefined behaviour (on the usual platforms a trap): the model returns \<open>None\<close> there,
  so that \<open>mm_init\<close> returns a value only when each of its stores is inside the heap.
\<close>

definition mm_init :: "heap_state \<Rightarrow> (int \<times> heap_state) option" where
  "mm_init s =
     (let r = mem_sbrk (OVERHEAD + 2 * WORD) s;
          p = fst r + OVERHEAD;
          s1 = snd r
      in if \<not> in_heap s1 (HEADER p) then None
         else
           (let s2 = set_VALUE (HEADER p) (PACK OVERHEAD ALLOCATED) s1
            in if \<not> in_heap s2 (FOOTER s2 p) then None
               else
                 (let s3 = set_VALUE (FOOTER s2 p) (PACK OVERHEAD ALLOCATED) s2;
                      p' = NEXT_BLOCK s3 p
                  in if \<not> in_heap s3 (HEADER p') then None
                     else
                       (let s4 = set_VALUE (HEADER p') (PACK 0 ALLOCATED) s3
                        in Some (0, mm_init_lists 0 s4)))))"

text \<open>
  The second half of \<open>mm_malloc\<close> (lines 349 to 356): take the block off its list, mark it
  allocated, split off what is left over.
\<close>

definition mm_malloc_place :: "addr \<Rightarrow> 32 word \<Rightarrow> heap_state \<Rightarrow> addr \<times> heap_state" where
  "mm_malloc_place bp sz s =
     (let s1 = list_remove bp s;
          s2 = REPACK_STATE (HEADER bp) ALLOCATED s1;
          s3 = REPACK_STATE (FOOTER s2 bp) ALLOCATED s2
      in (bp, split bp sz s3))"

definition mm_malloc :: "32 word \<Rightarrow> heap_state \<Rightarrow> (addr \<times> heap_state) option" where
  "mm_malloc sz s =
     (if sz = 0 then Some (NULL, s)
      else
        (let bsize = ALIGN (sz + OVERHEAD) in
         case find_block s bsize of
           None \<Rightarrow> None
         | Some bp \<Rightarrow>
             if bp = NULL
             then (let r = new_block bsize s in
                   if fst r = NULL then Some (NULL, snd r)
                   else Some (mm_malloc_place (fst r) bsize (snd r)))
             else Some (mm_malloc_place bp bsize s)))"

definition mm_free :: "addr \<Rightarrow> heap_state \<Rightarrow> heap_state" where
  "mm_free bp s =
     (let s1 = REPACK_STATE (HEADER bp) FREE s;
          s2 = REPACK_STATE (FOOTER s1 bp) FREE s1
      in snd (coalesce bp s2))"

text \<open>
  \<open>memmove(dst, src, n)\<close>: every byte of the destination range receives the byte the
  source range held before the call, whether or not the two ranges overlap. \<open>memcpy\<close> is
  given the same meaning.
\<close>

definition memmove :: "addr \<Rightarrow> addr \<Rightarrow> 32 word \<Rightarrow> heap_state \<Rightarrow> heap_state" where
  "memmove dst src n s =
     s\<lparr>mem := (\<lambda>x. if x - dst < n then mem s (src + (x - dst)) else mem s x)\<rparr>"

definition memcpy :: "addr \<Rightarrow> addr \<Rightarrow> 32 word \<Rightarrow> heap_state \<Rightarrow> heap_state" where
  "memcpy dst src n s = memmove dst src n s"

definition mm_realloc :: "addr \<Rightarrow> 32 word \<Rightarrow> heap_state \<Rightarrow> (addr \<times> heap_state) option" where
  "mm_realloc bp sz s =
     (if bp = NULL then mm_malloc sz s
      else if sz = 0 then Some (NULL, mm_free bp s)
      else
        (let newsize = ALIGN (sz + OVERHEAD);
             oldsize = UNPACK_SIZE s (HEADER bp)
         in
         if newsize + OVERHEAD < oldsize then Some (bp, split bp sz s)
         else if newsize < oldsize then Some (bp, s)
         else
           (let cosize = oldsize + UNPACK_SIZE s (NEXT_HEADER s bp) in
            if UNPACK_STATE s (NEXT_HEADER s bp) = FREE \<and> newsize \<le> cosize
            then
              (let s1 = list_remove (NEXT_BLOCK s bp) s;
                   s2 = set_VALUE (HEADER bp) (PACK cosize ALLOCATED) s1;
                   s3 = set_VALUE (FOOTER s2 bp) (PACK cosize ALLOCATED) s2
               in Some (bp, split bp newsize s3))
            else
              (let cosize = oldsize + UNPACK_SIZE s (PREV_FOOTER bp) in
               if UNPACK_STATE s (PREV_FOOTER bp) = FREE \<and> newsize \<le> cosize
               then
                 (let bp2 = PREV_BLOCK s bp;
                      s1 = list_remove bp2 s;
                      s2 = set_VALUE (HEADER bp2) (PACK cosize ALLOCATED) s1;
                      s3 = set_VALUE (FOOTER s2 bp2) (PACK cosize ALLOCATED) s2;
                      s4 = memmove bp2 bp (oldsize - OVERHEAD) s3
                  in Some (bp2, split bp2 newsize s4))
               else
                 (case mm_malloc sz s of
                    None \<Rightarrow> None
                  | Some r \<Rightarrow>
                      if fst r \<noteq> NULL
                      then Some (fst r, mm_free bp (memcpy (fst r) bp (oldsize - OVERHEAD) (snd r)))
                      else Some (fst r, snd r))))))"

section \<open>Notions used by the statements\<close>

subsection \<open>The search order of \<open>find_block\<close>, in the words of the specification\<close>

text \<open>
  The bucket of a size: the smallest \<open>i\<close> in \<open>1..MAX_SEG - 1\<close> with \<open>size \<le> 2^i\<close>, or \<open>0\<close> if
  the size exceeds \<open>2^(MAX_SEG - 1)\<close>.
\<close>

definition bucket_of_spec :: "nat \<Rightarrow> nat" where
  "bucket_of_spec n = (case find (\<lambda>i. n \<le> 2 ^ i) [1..<MAX_SEG] of Some i \<Rightarrow> i | None \<Rightarrow> 0)"

text \<open>
  \<open>chain s p bs\<close>: starting at \<open>p\<close> and following \<open>NEXT_FREE\<close>, the store holds exactly the
  nodes \<open>bs\<close>, head first, and then the null pointer.
\<close>

fun chain :: "heap_state \<Rightarrow> addr \<Rightarrow> addr list \<Rightarrow> bool" where
  "chain s p [] \<longleftrightarrow> p = NULL"
| "chain s p (b # bs) \<longleftrightarrow> p = b \<and> b \<noteq> NULL \<and> chain s (NEXT_FREE s b) bs"

text \<open>
  The lists in the order the specification searches them: bucket \<open>seg\<close>, then \<open>seg + 1\<close> up
  to \<open>MAX_SEG - 1\<close> (when \<open>seg > 0\<close>), then bucket \<open>0\<close>; and the first block of a list that is
  large enough (\<open>NULL\<close> for none).
\<close>

definition search_order :: "(nat \<Rightarrow> addr list) \<Rightarrow> nat \<Rightarrow> addr list" where
  "search_order fl seg = (if 0 < seg then concat (map fl [seg..<MAX_SEG]) else []) @ fl 0"

definition first_fit :: "heap_state \<Rightarrow> 32 word \<Rightarrow> addr list \<Rightarrow> addr" where
  "first_fit s sz bs =
     (case find (\<lambda>b. sz \<le> UNPACK_SIZE s (HEADER b)) bs of None \<Rightarrow> NULL | Some b \<Rightarrow> b)"

subsection \<open>The last branch of \<open>mm_realloc\<close>\<close>

text \<open>
  \<open>mm_realloc\<close> reaches its last branch (lines 433 to 440, allocate another block and copy)
  when neither special case applies and none of the guards of lines 398, 404, 409 and 419
  holds.
\<close>

definition realloc_relocates :: "heap_state \<Rightarrow> addr \<Rightarrow> 32 word \<Rightarrow> bool" where
  "realloc_relocates s bp sz \<longleftrightarrow>
     (let newsize = ALIGN (sz + OVERHEAD); oldsize = UNPACK_SIZE s (HEADER bp) in
      bp \<noteq> NULL \<and> sz \<noteq> 0 \<and> \<not> newsize + OVERHEAD < oldsize \<and> \<not> newsize < oldsize \<and>
      \<not> (UNPACK_STATE s (NEXT_HEADER s bp) = FREE \<and>
          newsize \<le> oldsize + UNPACK_SIZE s (NEXT_HEADER s bp)) \<and>
      \<not> (UNPACK_STATE s (PREV_FOOTER bp) = FREE \<and>
          newsize \<le> oldsize + UNPACK_SIZE s (PREV_FOOTER bp)))"

subsection \<open>Separation of word accesses\<close>

text \<open>Two four-byte accesses at \<open>a\<close> and \<open>b\<close> share no byte.\<close>

definition apart :: "addr \<Rightarrow> addr \<Rightarrow> bool" where
  "apart a b \<longleftrightarrow> 4 \<le> a - b \<and> 4 \<le> b - a"

subsection \<open>Sequences of stores\<close>

text \<open>The heap after the word stores \<open>ws\<close>, the last store first.\<close>

fun stores :: "(addr \<times> 32 word) list \<Rightarrow> heap_state \<Rightarrow> heap_state" where
  "stores [] s = s"
| "stores ((p, v) # ws) s = set_VALUE p v (stores ws s)"

subsection \<open>Concrete heaps\<close>

text \<open>
  A zero-filled heap of 64 KiB at address \<open>0x10000\<close>, before \<open>mm_init\<close>; the static tables
  hold null pointers. Then the heaps reached from it by the calls named in each definition.
\<close>

definition heap0 :: heap_state where
  "heap0 = \<lparr>mem = (\<lambda>_. 0), first_seg = (\<lambda>_. NULL), last_seg = (\<lambda>_. NULL),
            brk = 0x10000, max_addr = 0x20000, heap_lo = 0x10000\<rparr>"


text \<open>After \<open>mm_init()\<close>.\<close>

definition heap1 :: heap_state where
  "heap1 = snd (the (mm_init heap0))"

text \<open>After \<open>a = mm_malloc(16)\<close>, with \<open>a = 0x10020\<close>.\<close>

definition heap2 :: heap_state where
  "heap2 = snd (the (mm_malloc 16 heap1))"

text \<open>After \<open>b = mm_malloc(16)\<close>, with \<open>b = 0x10040\<close>; and after \<open>mm_free(b)\<close>.\<close>

definition heap3 :: heap_state where
  "heap3 = snd (the (mm_malloc 16 heap2))"

definition heap4 :: heap_state where
  "heap4 = mm_free 0x10040 heap3"

text \<open>After \<open>mm_init()\<close> and \<open>a = mm_malloc(1024)\<close>, again with \<open>a = 0x10020\<close>.\<close>

definition heap_big :: heap_state where
  "heap_big = snd (the (mm_malloc 1024 heap1))"

text \<open>
  After \<open>mm_init()\<close>, \<open>a = mm_malloc(600)\<close> and \<open>b = mm_malloc(1000)\<close>, with \<open>a = 0x10020\<close> and
  \<open>b = 0x10288\<close>; after \<open>mm_realloc(a, 16)\<close>, which returns \<open>a\<close>; and after the client has
  stored two words in the 16 bytes it asked for, at \<open>a + 8\<close> and at \<open>a + 12\<close>.
\<close>

definition heap_a :: heap_state where
  "heap_a = snd (the (mm_malloc 600 heap1))"

definition heap_ab :: heap_state where
  "heap_ab = snd (the (mm_malloc 1000 heap_a))"

definition heap_shrunk :: heap_state where
  "heap_shrunk = snd (the (mm_realloc 0x10020 16 heap_ab))"

definition heap_written :: heap_state where
  "heap_written = set_VALUE (0x10020 + 12) (0x10020 + 20) (set_VALUE (0x10020 + 8) 720 heap_shrunk)"

text \<open>
  A heap with several free lists in use. After \<open>mm_init()\<close>, seven blocks are allocated with
  \<open>mm_malloc\<close>, of 600, 16, 616, 16, 3000, 16 and 5000 bytes; then the first, third, fifth and
  seventh are freed, in this order. The blocks of 16 bytes keep the free blocks apart, so
  none is merged: list 10 holds the blocks at \<open>0x10020\<close> (616 bytes) and \<open>0x102a8\<close> (632 bytes),
  list 12 the block at \<open>0x10540\<close> (3016 bytes), list 0 the block at \<open>0x11128\<close> (5016 bytes).
\<close>

definition heap_l1 :: heap_state where
  "heap_l1 = snd (the (mm_malloc 600 heap1))"

definition heap_l2 :: heap_state where
  "heap_l2 = snd (the (mm_malloc 16 heap_l1))"

definition heap_l3 :: heap_state where
  "heap_l3 = snd (the (mm_malloc 616 heap_l2))"

definition heap_l4 :: heap_state where
  "heap_l4 = snd (the (mm_malloc 16 heap_l3))"

definition heap_l5 :: heap_state where
  "heap_l5 = snd (the (mm_malloc 3000 heap_l4))"

definition heap_l6 :: heap_state where
  "heap_l6 = snd (the (mm_malloc 16 heap_l5))"

definition heap_l7 :: heap_state where
  "heap_l7 = snd (the (mm_malloc 5000 heap_l6))"

definition heap_l8 :: heap_state where
  "heap_l8 = mm_free 65568 heap_l7"

definition heap_l9 :: heap_state where
  "heap_l9 = mm_free 66216 heap_l8"

definition heap_l10 :: heap_state where
  "heap_l10 = mm_free 66880 heap_l9"

definition heap_lists :: heap_state where
  "heap_lists = mm_free 69928 heap_l10"

text \<open>
  The heap \<open>heap_shrunk\<close> after the client has stored the word 736 at \<open>a + 4\<close>, inside the 16
  bytes of \<open>a\<close>, and three words at \<open>b + 124\<close>, \<open>b + 128\<close> and \<open>b + 132\<close>, inside the 1000 bytes
  of \<open>b\<close>.
\<close>

definition heap_forged :: heap_state where
  "heap_forged =
     set_VALUE (0x10020 + 748) 0x10400 (set_VALUE (0x10020 + 744) (0x10020 + 8)
       (set_VALUE (0x10020 + 740) 0 (set_VALUE (0x10020 + 4) 736 heap_shrunk)))"

subsection \<open>Well-formed heaps\<close>

text \<open>
  The address \<open>q\<close> of a block lies outside the block at \<open>bp\<close> of \<open>sz\<close> bytes, with room for
  its own header and links; and \<open>q\<close> is null or a block that ends before the block at \<open>bp\<close>
  begins.
\<close>

definition far :: "addr \<Rightarrow> 32 word \<Rightarrow> addr \<Rightarrow> bool" where
  "far bp sz q \<longleftrightarrow> 16 \<le> unat q \<and> (unat q + 16 \<le> unat bp \<or> unat bp + unat sz \<le> unat q)"

definition below :: "addr \<Rightarrow> addr \<Rightarrow> bool" where
  "below bp q \<longleftrightarrow> q = NULL \<or> (16 \<le> unat q \<and> unat q + 16 \<le> unat bp)"

text \<open>
  The blocks \<open>bs\<close> tile the heap from \<open>p\<close> up to the terminating header that \<open>new_block\<close>
  and \<open>mm_init\<close> write after the last block: each block has at least \<open>OVERHEAD\<close> bytes, ends
  inside the heap, carries the same word in its header and its footer, and is followed by
  the next one.
\<close>

fun tiled :: "heap_state \<Rightarrow> addr \<Rightarrow> addr list \<Rightarrow> bool" where
  "tiled s p [] \<longleftrightarrow> p = brk s + 8 \<and> VALUE s (HEADER p) = PACK 0 ALLOCATED"
| "tiled s p (b # bs) \<longleftrightarrow>
     p = b \<and> 16 \<le> unat (UNPACK_SIZE s (HEADER b)) \<and>
     unat b + unat (UNPACK_SIZE s (HEADER b)) \<le> unat (brk s) + 8 \<and>
     VALUE s (FOOTER s b) = VALUE s (HEADER b) \<and>
     tiled s (b + UNPACK_SIZE s (HEADER b)) bs"

text \<open>No two neighbours are both free: \<open>coalesce\<close> merges them.\<close>

fun no_adjacent_free :: "heap_state \<Rightarrow> addr list \<Rightarrow> bool" where
  "no_adjacent_free s (b # c # bs) \<longleftrightarrow>
     \<not> (UNPACK_STATE s (HEADER b) = FREE \<and> UNPACK_STATE s (HEADER c) = FREE) \<and>
     no_adjacent_free s (c # bs)"
| "no_adjacent_free s bs \<longleftrightarrow> True"

text \<open>
  A free list as \<open>list_add\<close> and \<open>list_remove\<close> keep it: \<open>xs\<close> are the blocks reached from
  \<open>p\<close> along \<open>NEXT_FREE\<close>, each \<open>PREV_FREE\<close> points back, and \<open>lst\<close> is the last block.
\<close>

fun dchain :: "heap_state \<Rightarrow> addr \<Rightarrow> addr \<Rightarrow> addr list \<Rightarrow> addr \<Rightarrow> bool" where
  "dchain s prev p [] lst \<longleftrightarrow> p = NULL \<and> lst = prev"
| "dchain s prev p (b # bs) lst \<longleftrightarrow>
     p = b \<and> b \<noteq> NULL \<and> PREV_FREE s b = prev \<and> dchain s b (NEXT_FREE s b) bs lst"

text \<open>
  A heap as \<open>mm_init\<close> sets it up and the list operations maintain it: the prologue block
  before the first block \<open>b0\<close>, the tiling by the blocks \<open>bs\<close>, and the thirteen lists \<open>fl\<close>
  holding exactly the free blocks of \<open>bs\<close>, each on the list of its size. The heap ends at
  least eight bytes below the top of the address space.
\<close>

definition heap_inv :: "heap_state \<Rightarrow> addr \<Rightarrow> addr list \<Rightarrow> (nat \<Rightarrow> addr list) \<Rightarrow> bool" where
  "heap_inv s b0 bs fl \<longleftrightarrow>
     28 \<le> unat b0 \<and> unat (brk s) \<le> unat (max_addr s) \<and> unat (max_addr s) + 8 < 4294967296 \<and>
     VALUE s (HEADER (b0 - OVERHEAD)) = PACK OVERHEAD ALLOCATED \<and>
     VALUE s (PREV_FOOTER b0) = PACK OVERHEAD ALLOCATED \<and>
     tiled s b0 bs \<and> no_adjacent_free s bs \<and>
     (\<forall>i<MAX_SEG. dchain s NULL (first_seg s i) (fl i) (last_seg s i)) \<and>
     (\<forall>i<MAX_SEG. \<forall>b\<in>set (fl i). list_find (UNPACK_SIZE s (HEADER b)) = i) \<and>
     distinct (concat (map fl [0..<MAX_SEG])) \<and>
     set (concat (map fl [0..<MAX_SEG])) = set (filter (\<lambda>b. UNPACK_STATE s (HEADER b) = FREE) bs)"

text \<open>Follows the spec's words: \<open>align_up(m, 8)\<close>, the least multiple of 8 that is at least \<open>m\<close>.\<close>

definition align_up :: "nat \<Rightarrow> nat" where
  "align_up m = (m + 7) div 8 * 8"

declare list_find_loop.simps [simp del]
declare find_from_seg.simps [simp del]
declare mm_init_lists.simps [simp del]

section \<open>Loads, stores and evaluation\<close>

lemma bytes_join:
  "(ucast (ucast v :: byte) :: 32 word) OR
     push_bit 8 (ucast (ucast (drop_bit 8 v) :: byte) :: 32 word) OR
     push_bit 16 (ucast (ucast (drop_bit 16 v) :: byte) :: 32 word) OR
     push_bit 24 (ucast (ucast (drop_bit 24 v) :: byte) :: 32 word) = (v :: 32 word)"
  (is "?lhs = v")
proof (rule bit_word_eqI)
  fix n :: nat
  assume "n < LENGTH(32)"
  then show "bit ?lhs n = bit v n"
    by (cases "n < 8"; cases "n < 16"; cases "n < 24") (auto simp: bit_simps)
qed

lemma load32_store32_same: "load32 (store32 m a v) a = v"
  by (simp add: load32_def store32_def bytes_join)

lemma apart_neq:
  fixes i j :: addr
  assumes "i < 4" "j < 4" "apart a b"
  shows "a + i \<noteq> b + j"
  using assms unfolding apart_def by unat_arith

lemma load32_store32_apart:
  assumes "apart a b"
  shows "load32 (store32 m a v) b = load32 m b"
proof -
  have ne: "a + i \<noteq> b + j" if "i < 4" "j < 4" for i j
    using apart_neq[OF that assms] .
  from ne[of 0 0] ne[of 1 0] ne[of 2 0] ne[of 3 0]
    ne[of 0 1] ne[of 1 1] ne[of 2 1] ne[of 3 1]
    ne[of 0 2] ne[of 1 2] ne[of 2 2] ne[of 3 2]
    ne[of 0 3] ne[of 1 3] ne[of 2 3] ne[of 3 3]
  show ?thesis
    by (simp add: load32_def store32_def eq_commute)
qed

lemma VALUE_set_same: "VALUE (set_VALUE p v s) p = v"
  by (simp add: VALUE_def set_VALUE_def load32_store32_same)

lemma VALUE_set_apart: "apart p q \<Longrightarrow> VALUE (set_VALUE p v s) q = VALUE s q"
  by (simp add: VALUE_def set_VALUE_def load32_store32_apart)

lemma set_VALUE_fields:
  "first_seg (set_VALUE p v s) = first_seg s"
  "last_seg (set_VALUE p v s) = last_seg s"
  "brk (set_VALUE p v s) = brk s"
  "max_addr (set_VALUE p v s) = max_addr s"
  "heap_lo (set_VALUE p v s) = heap_lo s"
  by (simp_all add: set_VALUE_def)

lemma upd_set_VALUE:
  "(set_VALUE p v s)\<lparr>first_seg := f\<rparr> = set_VALUE p v (s\<lparr>first_seg := f\<rparr>)"
  "(set_VALUE p v s)\<lparr>last_seg := f\<rparr> = set_VALUE p v (s\<lparr>last_seg := f\<rparr>)"
  "(set_VALUE p v s)\<lparr>brk := b\<rparr> = set_VALUE p v (s\<lparr>brk := b\<rparr>)"
  by (simp_all add: set_VALUE_def)

lemma mm_init_lists_set_VALUE:
  "mm_init_lists k (set_VALUE p v s) = set_VALUE p v (mm_init_lists k s)"
proof (induction k s rule: mm_init_lists.induct)
  case (1 seg s)
  show ?case
  proof (cases "seg < MAX_SEG")
    case True
    then show ?thesis
      using 1 by (subst (1 2) mm_init_lists.simps) (simp add: upd_set_VALUE set_VALUE_fields)
  next
    case False
    then show ?thesis by (subst (1 2) mm_init_lists.simps) simp
  qed
qed

lemma VALUE_zero:
  "VALUE \<lparr>mem = (\<lambda>_. 0), first_seg = F, last_seg = L, brk = b, max_addr = m, heap_lo = l\<rparr> p = 0"
  by (simp add: VALUE_def load32_def)

lemma fun_upd_const_same: "(\<lambda>_. c)(x := c) = (\<lambda>_. c)"
  by auto

lemma list_find_cases:
  "list_find sz =
     (if sz \<le> 2 then 1 else if sz \<le> 4 then 2 else if sz \<le> 8 then 3
      else if sz \<le> 16 then 4 else if sz \<le> 32 then 5 else if sz \<le> 64 then 6
      else if sz \<le> 128 then 7 else if sz \<le> 256 then 8 else if sz \<le> 512 then 9
      else if sz \<le> 1024 then 10 else if sz \<le> 2048 then 11 else if sz \<le> 4096 then 12
      else 0)"
  by (simp add: list_find_def list_find_loop.simps MAX_SEG_def)

text \<open>
  The rule sets that run the allocator on a concrete heap: the macros, the functions, and
  the laws of loads and stores.
\<close>

lemmas macro_defs = HEADER_def FOOTER_def OVERHEAD_def WORD_def PACK_def ALLOCATED_def FREE_def
  NULL_def UNPACK_SIZE_def UNPACK_STATE_def NEXT_BLOCK_def PREV_BLOCK_def NEXT_HEADER_def
  PREV_FOOTER_def REPACK_SIZE_def REPACK_STATE_def NEXT_FREE_def PREV_FREE_def
  set_NEXT_FREE_def set_PREV_FREE_def ALIGN_def MAX_SEG_def

lemmas run_defs = mm_init_def in_heap_def mm_init_lists.simps mem_sbrk_def sbrk_fails_def Let_def
  list_find_cases list_add_def list_remove_def coalesce_def split_def
  find_in_list.simps find_from_seg.simps find_block_def new_block_def
  mm_malloc_def mm_malloc_place_def mm_free_def mm_realloc_def

lemmas store_simps = fun_upd_const_same VALUE_set_same VALUE_set_apart set_VALUE_fields
  upd_set_VALUE apart_def mm_init_lists_set_VALUE VALUE_zero

lemmas ev = run_defs macro_defs store_simps

lemma mem_set_VALUE:
  "mem (set_VALUE p v s) x =
     (if x - p = 0 then ucast v
      else if x - p = 1 then ucast (drop_bit 8 v)
      else if x - p = 2 then ucast (drop_bit 16 v)
      else if x - p = 3 then ucast (drop_bit 24 v)
      else mem s x)"
proof -
  have e: "x = p + k \<longleftrightarrow> x - p = k" for k
    by auto
  show ?thesis
    by (simp add: set_VALUE_def store32_def e)
qed

lemma memmove_fields:
  "first_seg (memmove d src n s) = first_seg s"
  "last_seg (memmove d src n s) = last_seg s"
  "brk (memmove d src n s) = brk s"
  "max_addr (memmove d src n s) = max_addr s"
  "heap_lo (memmove d src n s) = heap_lo s"
  by (simp_all add: memmove_def)

lemma upd_memmove:
  "(memmove d src n s)\<lparr>first_seg := f\<rparr> = memmove d src n (s\<lparr>first_seg := f\<rparr>)"
  "(memmove d src n s)\<lparr>last_seg := f\<rparr> = memmove d src n (s\<lparr>last_seg := f\<rparr>)"
  "(memmove d src n s)\<lparr>brk := b\<rparr> = memmove d src n (s\<lparr>brk := b\<rparr>)"
  by (simp_all add: memmove_def cong: if_cong)

lemma mem_memmove:
  "mem (memmove d src n s) x = (if x - d < n then mem s (src + (x - d)) else mem s x)"
  by (simp add: memmove_def)

lemma unat_plus_small:
  fixes a :: addr
  assumes "unat a + k < 2 ^ 32"
  shows "unat (a + of_nat k) = unat a + k"
proof -
  have k: "unat (of_nat k :: addr) = k"
    using assms by (simp add: unat_of_nat)
  have "unat a + unat (of_nat k :: addr) < 2 ^ LENGTH(32)"
    using assms k by simp
  then have "unat (a + of_nat k) = unat a + unat (of_nat k :: addr)"
    by (simp only: unat_add_lem)
  with k show ?thesis by simp
qed

lemma VALUE_memmove_inside:
  assumes "unat (q - d) + 3 < unat n"
  shows "VALUE (memmove d src n s) q = VALUE s (src + (q - d))"
proof -
  have n: "unat n < 2 ^ 32"
    using unsigned_less[of n] by simp
  have u: "unat (q - d + of_nat k) = unat (q - d) + k" if "k \<le> 3" for k
    using that assms n by (intro unat_plus_small) simp
  have i: "q - d + of_nat k < n" if "k \<le> 3" for k
    using u[OF that] that assms by (simp add: word_less_nat_alt)
  have r: "q + 1 - d = q - d + 1" "q + 2 - d = q - d + 2" "q + 3 - d = q - d + 3"
    by simp_all
  from i[of 0] i[of 1] i[of 2] i[of 3]
  show ?thesis
    by (simp add: VALUE_def load32_def mem_memmove r add.assoc)
qed

lemma VALUE_memmove_outside:
  assumes "unat n \<le> unat (q - d)" and "unat (q - d) + 3 < 2 ^ 32"
  shows "VALUE (memmove d src n s) q = VALUE s q"
proof -
  have u: "unat (q - d + of_nat k) = unat (q - d) + k" if "k \<le> 3" for k
    using that assms by (intro unat_plus_small) simp
  have i: "\<not> q - d + of_nat k < n" if "k \<le> 3" for k
    using u[OF that] that assms by (simp add: word_less_nat_alt)
  have r: "q + 1 - d = q - d + 1" "q + 2 - d = q - d + 2" "q + 3 - d = q - d + 3"
    by simp_all
  from i[of 0] i[of 1] i[of 2] i[of 3]
  show ?thesis
    by (simp add: VALUE_def load32_def mem_memmove r)
qed

lemmas ev2 = ev memcpy_def mem_set_VALUE memmove_fields upd_memmove VALUE_memmove_inside
  VALUE_memmove_outside

subsection \<open>The concrete heaps, written out\<close>

lemma heap1_eq:
  "heap1 =
   (set_VALUE 65556 1 (set_VALUE 65552 17 (set_VALUE 65540 17
     \<lparr>mem = \<lambda>_. 0, first_seg = \<lambda>_. 0, last_seg = \<lambda>_. 0, brk = 65560, max_addr = 131072, heap_lo = 65536\<rparr>)))"
  by (simp add: heap1_def heap0_def ev cong: let_weak_cong)

lemma malloc_heap1:
  "mm_malloc 16 heap1 = Some (65568,
   (set_VALUE 65584 33 (set_VALUE 65556 33 (set_VALUE 65560 0 (set_VALUE 65564 0
   (set_VALUE 65588 1 (set_VALUE 65584 32 (set_VALUE 65556 32 (set_VALUE 65556 1
   (set_VALUE 65552 17 (set_VALUE 65540 17
     \<lparr>mem = \<lambda>_. 0, first_seg = \<lambda>_. 0, last_seg = \<lambda>_. 0, brk = 65592, max_addr = 131072, heap_lo = 65536\<rparr>)))))))))))"
  by (simp add: heap1_eq ev cong: let_weak_cong)

lemma heap2_eq:
  "heap2 =
   (set_VALUE 65584 33 (set_VALUE 65556 33 (set_VALUE 65560 0 (set_VALUE 65564 0
   (set_VALUE 65588 1 (set_VALUE 65584 32 (set_VALUE 65556 32 (set_VALUE 65556 1
   (set_VALUE 65552 17 (set_VALUE 65540 17
     \<lparr>mem = \<lambda>_. 0, first_seg = \<lambda>_. 0, last_seg = \<lambda>_. 0, brk = 65592, max_addr = 131072, heap_lo = 65536\<rparr>))))))))))"
  by (simp add: heap2_def malloc_heap1)

lemma malloc_heap2:
  "mm_malloc 16 heap2 = Some (65600,
   (set_VALUE 65616 33 (set_VALUE 65588 33 (set_VALUE 65592 0 (set_VALUE 65596 0
   (set_VALUE 65620 1 (set_VALUE 65616 32 (set_VALUE 65588 32 (set_VALUE 65584 33
   (set_VALUE 65556 33 (set_VALUE 65560 0 (set_VALUE 65564 0 (set_VALUE 65588 1
   (set_VALUE 65584 32 (set_VALUE 65556 32 (set_VALUE 65556 1 (set_VALUE 65552 17
   (set_VALUE 65540 17
     \<lparr>mem = \<lambda>_. 0, first_seg = \<lambda>_. 0, last_seg = \<lambda>_. 0, brk = 65624, max_addr = 131072, heap_lo = 65536\<rparr>))))))))))))))))))"
  by (simp add: heap2_eq ev cong: let_weak_cong)

lemma heap3_eq:
  "heap3 =
   (set_VALUE 65616 33 (set_VALUE 65588 33 (set_VALUE 65592 0 (set_VALUE 65596 0
   (set_VALUE 65620 1 (set_VALUE 65616 32 (set_VALUE 65588 32 (set_VALUE 65584 33
   (set_VALUE 65556 33 (set_VALUE 65560 0 (set_VALUE 65564 0 (set_VALUE 65588 1
   (set_VALUE 65584 32 (set_VALUE 65556 32 (set_VALUE 65556 1 (set_VALUE 65552 17
   (set_VALUE 65540 17
     \<lparr>mem = \<lambda>_. 0, first_seg = \<lambda>_. 0, last_seg = \<lambda>_. 0, brk = 65624, max_addr = 131072, heap_lo = 65536\<rparr>)))))))))))))))))"
  by (simp add: heap3_def malloc_heap2)

lemma heap4_eq:
  "heap4 =
   (set_VALUE 65592 0 (set_VALUE 65596 0 (set_VALUE 65616 32 (set_VALUE 65588 32
   (set_VALUE 65616 33 (set_VALUE 65588 33 (set_VALUE 65592 0 (set_VALUE 65596 0
   (set_VALUE 65620 1 (set_VALUE 65616 32 (set_VALUE 65588 32 (set_VALUE 65584 33
   (set_VALUE 65556 33 (set_VALUE 65560 0 (set_VALUE 65564 0 (set_VALUE 65588 1
   (set_VALUE 65584 32 (set_VALUE 65556 32 (set_VALUE 65556 1 (set_VALUE 65552 17
   (set_VALUE 65540 17
     \<lparr>mem = \<lambda>_. 0, first_seg = (\<lambda>_. 0)(5 := 65600), last_seg = (\<lambda>_. 0)(5 := 65600), brk = 65624, max_addr = 131072, heap_lo = 65536\<rparr>)))))))))))))))))))))"
  by (simp add: heap4_def heap3_eq ev cong: let_weak_cong)

lemma malloc_heap1_big:
  "mm_malloc 1024 heap1 = Some (65568,
   (set_VALUE 66592 1041 (set_VALUE 65556 1041 (set_VALUE 65560 0 (set_VALUE 65564 0
   (set_VALUE 66596 1 (set_VALUE 66592 1040 (set_VALUE 65556 1040 (set_VALUE 65556 1
   (set_VALUE 65552 17 (set_VALUE 65540 17
     \<lparr>mem = \<lambda>_. 0, first_seg = \<lambda>_. 0, last_seg = \<lambda>_. 0, brk = 66600, max_addr = 131072, heap_lo = 65536\<rparr>)))))))))))"
  by (simp add: heap1_eq ev cong: let_weak_cong)

lemma heap_big_eq:
  "heap_big =
   (set_VALUE 66592 1041 (set_VALUE 65556 1041 (set_VALUE 65560 0 (set_VALUE 65564 0
   (set_VALUE 66596 1 (set_VALUE 66592 1040 (set_VALUE 65556 1040 (set_VALUE 65556 1
   (set_VALUE 65552 17 (set_VALUE 65540 17
     \<lparr>mem = \<lambda>_. 0, first_seg = \<lambda>_. 0, last_seg = \<lambda>_. 0, brk = 66600, max_addr = 131072, heap_lo = 65536\<rparr>))))))))))"
  by (simp add: heap_big_def malloc_heap1_big)

lemma malloc_heap_l1:
  "mm_malloc 600 heap1 = Some (65568,
   stores
     [(66168, 617), (65556, 617), (65560, 0), (65564, 0),
      (66172, 1), (66168, 616), (65556, 616), (65556, 1),
      (65552, 17), (65540, 17)]
     \<lparr>mem = \<lambda>_. 0, first_seg = \<lambda>_. 0, last_seg = \<lambda>_. 0, brk = 66176, max_addr = 131072, heap_lo = 65536\<rparr>)"
  by (simp add: heap1_eq ev cong: let_weak_cong)

lemma heap_l1_eq:
  "heap_l1 =
   stores
     [(66168, 617), (65556, 617), (65560, 0), (65564, 0),
      (66172, 1), (66168, 616), (65556, 616), (65556, 1),
      (65552, 17), (65540, 17)]
     \<lparr>mem = \<lambda>_. 0, first_seg = \<lambda>_. 0, last_seg = \<lambda>_. 0, brk = 66176, max_addr = 131072, heap_lo = 65536\<rparr>"
  by (simp add: heap_l1_def malloc_heap_l1)

lemma malloc_heap_l2:
  "mm_malloc 16 heap_l1 = Some (66184,
   stores
     [(66200, 33), (66172, 33), (66176, 0), (66180, 0),
      (66204, 1), (66200, 32), (66172, 32), (66168, 617),
      (65556, 617), (65560, 0), (65564, 0), (66172, 1),
      (66168, 616), (65556, 616), (65556, 1), (65552, 17),
      (65540, 17)]
     \<lparr>mem = \<lambda>_. 0, first_seg = \<lambda>_. 0, last_seg = \<lambda>_. 0, brk = 66208, max_addr = 131072, heap_lo = 65536\<rparr>)"
  by (simp add: heap_l1_eq ev cong: let_weak_cong)

lemma heap_l2_eq:
  "heap_l2 =
   stores
     [(66200, 33), (66172, 33), (66176, 0), (66180, 0),
      (66204, 1), (66200, 32), (66172, 32), (66168, 617),
      (65556, 617), (65560, 0), (65564, 0), (66172, 1),
      (66168, 616), (65556, 616), (65556, 1), (65552, 17),
      (65540, 17)]
     \<lparr>mem = \<lambda>_. 0, first_seg = \<lambda>_. 0, last_seg = \<lambda>_. 0, brk = 66208, max_addr = 131072, heap_lo = 65536\<rparr>"
  by (simp add: heap_l2_def malloc_heap_l2)

lemma malloc_heap_l3:
  "mm_malloc 616 heap_l2 = Some (66216,
   stores
     [(66832, 633), (66204, 633), (66208, 0), (66212, 0),
      (66836, 1), (66832, 632), (66204, 632), (66200, 33),
      (66172, 33), (66176, 0), (66180, 0), (66204, 1),
      (66200, 32), (66172, 32), (66168, 617), (65556, 617),
      (65560, 0), (65564, 0), (66172, 1), (66168, 616),
      (65556, 616), (65556, 1), (65552, 17), (65540, 17)]
     \<lparr>mem = \<lambda>_. 0, first_seg = \<lambda>_. 0, last_seg = \<lambda>_. 0, brk = 66840, max_addr = 131072, heap_lo = 65536\<rparr>)"
  by (simp add: heap_l2_eq ev cong: let_weak_cong)

lemma heap_l3_eq:
  "heap_l3 =
   stores
     [(66832, 633), (66204, 633), (66208, 0), (66212, 0),
      (66836, 1), (66832, 632), (66204, 632), (66200, 33),
      (66172, 33), (66176, 0), (66180, 0), (66204, 1),
      (66200, 32), (66172, 32), (66168, 617), (65556, 617),
      (65560, 0), (65564, 0), (66172, 1), (66168, 616),
      (65556, 616), (65556, 1), (65552, 17), (65540, 17)]
     \<lparr>mem = \<lambda>_. 0, first_seg = \<lambda>_. 0, last_seg = \<lambda>_. 0, brk = 66840, max_addr = 131072, heap_lo = 65536\<rparr>"
  by (simp add: heap_l3_def malloc_heap_l3)

lemma malloc_heap_l4:
  "mm_malloc 16 heap_l3 = Some (66848,
   stores
     [(66864, 33), (66836, 33), (66840, 0), (66844, 0),
      (66868, 1), (66864, 32), (66836, 32), (66832, 633),
      (66204, 633), (66208, 0), (66212, 0), (66836, 1),
      (66832, 632), (66204, 632), (66200, 33), (66172, 33),
      (66176, 0), (66180, 0), (66204, 1), (66200, 32),
      (66172, 32), (66168, 617), (65556, 617), (65560, 0),
      (65564, 0), (66172, 1), (66168, 616), (65556, 616),
      (65556, 1), (65552, 17), (65540, 17)]
     \<lparr>mem = \<lambda>_. 0, first_seg = \<lambda>_. 0, last_seg = \<lambda>_. 0, brk = 66872, max_addr = 131072, heap_lo = 65536\<rparr>)"
  by (simp add: heap_l3_eq ev cong: let_weak_cong)

lemma heap_l4_eq:
  "heap_l4 =
   stores
     [(66864, 33), (66836, 33), (66840, 0), (66844, 0),
      (66868, 1), (66864, 32), (66836, 32), (66832, 633),
      (66204, 633), (66208, 0), (66212, 0), (66836, 1),
      (66832, 632), (66204, 632), (66200, 33), (66172, 33),
      (66176, 0), (66180, 0), (66204, 1), (66200, 32),
      (66172, 32), (66168, 617), (65556, 617), (65560, 0),
      (65564, 0), (66172, 1), (66168, 616), (65556, 616),
      (65556, 1), (65552, 17), (65540, 17)]
     \<lparr>mem = \<lambda>_. 0, first_seg = \<lambda>_. 0, last_seg = \<lambda>_. 0, brk = 66872, max_addr = 131072, heap_lo = 65536\<rparr>"
  by (simp add: heap_l4_def malloc_heap_l4)

lemma malloc_heap_l5:
  "mm_malloc 3000 heap_l4 = Some (66880,
   stores
     [(69880, 3017), (66868, 3017), (66872, 0), (66876, 0),
      (69884, 1), (69880, 3016), (66868, 3016), (66864, 33),
      (66836, 33), (66840, 0), (66844, 0), (66868, 1),
      (66864, 32), (66836, 32), (66832, 633), (66204, 633),
      (66208, 0), (66212, 0), (66836, 1), (66832, 632),
      (66204, 632), (66200, 33), (66172, 33), (66176, 0),
      (66180, 0), (66204, 1), (66200, 32), (66172, 32),
      (66168, 617), (65556, 617), (65560, 0), (65564, 0),
      (66172, 1), (66168, 616), (65556, 616), (65556, 1),
      (65552, 17), (65540, 17)]
     \<lparr>mem = \<lambda>_. 0, first_seg = \<lambda>_. 0, last_seg = \<lambda>_. 0, brk = 69888, max_addr = 131072, heap_lo = 65536\<rparr>)"
  by (simp add: heap_l4_eq ev cong: let_weak_cong)

lemma heap_l5_eq:
  "heap_l5 =
   stores
     [(69880, 3017), (66868, 3017), (66872, 0), (66876, 0),
      (69884, 1), (69880, 3016), (66868, 3016), (66864, 33),
      (66836, 33), (66840, 0), (66844, 0), (66868, 1),
      (66864, 32), (66836, 32), (66832, 633), (66204, 633),
      (66208, 0), (66212, 0), (66836, 1), (66832, 632),
      (66204, 632), (66200, 33), (66172, 33), (66176, 0),
      (66180, 0), (66204, 1), (66200, 32), (66172, 32),
      (66168, 617), (65556, 617), (65560, 0), (65564, 0),
      (66172, 1), (66168, 616), (65556, 616), (65556, 1),
      (65552, 17), (65540, 17)]
     \<lparr>mem = \<lambda>_. 0, first_seg = \<lambda>_. 0, last_seg = \<lambda>_. 0, brk = 69888, max_addr = 131072, heap_lo = 65536\<rparr>"
  by (simp add: heap_l5_def malloc_heap_l5)

lemma malloc_heap_l6:
  "mm_malloc 16 heap_l5 = Some (69896,
   stores
     [(69912, 33), (69884, 33), (69888, 0), (69892, 0),
      (69916, 1), (69912, 32), (69884, 32), (69880, 3017),
      (66868, 3017), (66872, 0), (66876, 0), (69884, 1),
      (69880, 3016), (66868, 3016), (66864, 33), (66836, 33),
      (66840, 0), (66844, 0), (66868, 1), (66864, 32),
      (66836, 32), (66832, 633), (66204, 633), (66208, 0),
      (66212, 0), (66836, 1), (66832, 632), (66204, 632),
      (66200, 33), (66172, 33), (66176, 0), (66180, 0),
      (66204, 1), (66200, 32), (66172, 32), (66168, 617),
      (65556, 617), (65560, 0), (65564, 0), (66172, 1),
      (66168, 616), (65556, 616), (65556, 1), (65552, 17),
      (65540, 17)]
     \<lparr>mem = \<lambda>_. 0, first_seg = \<lambda>_. 0, last_seg = \<lambda>_. 0, brk = 69920, max_addr = 131072, heap_lo = 65536\<rparr>)"
  by (simp add: heap_l5_eq ev cong: let_weak_cong)

lemma heap_l6_eq:
  "heap_l6 =
   stores
     [(69912, 33), (69884, 33), (69888, 0), (69892, 0),
      (69916, 1), (69912, 32), (69884, 32), (69880, 3017),
      (66868, 3017), (66872, 0), (66876, 0), (69884, 1),
      (69880, 3016), (66868, 3016), (66864, 33), (66836, 33),
      (66840, 0), (66844, 0), (66868, 1), (66864, 32),
      (66836, 32), (66832, 633), (66204, 633), (66208, 0),
      (66212, 0), (66836, 1), (66832, 632), (66204, 632),
      (66200, 33), (66172, 33), (66176, 0), (66180, 0),
      (66204, 1), (66200, 32), (66172, 32), (66168, 617),
      (65556, 617), (65560, 0), (65564, 0), (66172, 1),
      (66168, 616), (65556, 616), (65556, 1), (65552, 17),
      (65540, 17)]
     \<lparr>mem = \<lambda>_. 0, first_seg = \<lambda>_. 0, last_seg = \<lambda>_. 0, brk = 69920, max_addr = 131072, heap_lo = 65536\<rparr>"
  by (simp add: heap_l6_def malloc_heap_l6)

lemma malloc_heap_l7:
  "mm_malloc 5000 heap_l6 = Some (69928,
   stores
     [(74928, 5017), (69916, 5017), (69920, 0), (69924, 0),
      (74932, 1), (74928, 5016), (69916, 5016), (69912, 33),
      (69884, 33), (69888, 0), (69892, 0), (69916, 1),
      (69912, 32), (69884, 32), (69880, 3017), (66868, 3017),
      (66872, 0), (66876, 0), (69884, 1), (69880, 3016),
      (66868, 3016), (66864, 33), (66836, 33), (66840, 0),
      (66844, 0), (66868, 1), (66864, 32), (66836, 32),
      (66832, 633), (66204, 633), (66208, 0), (66212, 0),
      (66836, 1), (66832, 632), (66204, 632), (66200, 33),
      (66172, 33), (66176, 0), (66180, 0), (66204, 1),
      (66200, 32), (66172, 32), (66168, 617), (65556, 617),
      (65560, 0), (65564, 0), (66172, 1), (66168, 616),
      (65556, 616), (65556, 1), (65552, 17), (65540, 17)]
     \<lparr>mem = \<lambda>_. 0, first_seg = \<lambda>_. 0, last_seg = \<lambda>_. 0, brk = 74936, max_addr = 131072, heap_lo = 65536\<rparr>)"
  by (simp add: heap_l6_eq ev cong: let_weak_cong)

lemma heap_l7_eq:
  "heap_l7 =
   stores
     [(74928, 5017), (69916, 5017), (69920, 0), (69924, 0),
      (74932, 1), (74928, 5016), (69916, 5016), (69912, 33),
      (69884, 33), (69888, 0), (69892, 0), (69916, 1),
      (69912, 32), (69884, 32), (69880, 3017), (66868, 3017),
      (66872, 0), (66876, 0), (69884, 1), (69880, 3016),
      (66868, 3016), (66864, 33), (66836, 33), (66840, 0),
      (66844, 0), (66868, 1), (66864, 32), (66836, 32),
      (66832, 633), (66204, 633), (66208, 0), (66212, 0),
      (66836, 1), (66832, 632), (66204, 632), (66200, 33),
      (66172, 33), (66176, 0), (66180, 0), (66204, 1),
      (66200, 32), (66172, 32), (66168, 617), (65556, 617),
      (65560, 0), (65564, 0), (66172, 1), (66168, 616),
      (65556, 616), (65556, 1), (65552, 17), (65540, 17)]
     \<lparr>mem = \<lambda>_. 0, first_seg = \<lambda>_. 0, last_seg = \<lambda>_. 0, brk = 74936, max_addr = 131072, heap_lo = 65536\<rparr>"
  by (simp add: heap_l7_def malloc_heap_l7)

lemma heap_l8_eq:
  "heap_l8 =
   stores
     [(65560, 0), (65564, 0), (66168, 616), (65556, 616),
      (74928, 5017), (69916, 5017), (69920, 0), (69924, 0),
      (74932, 1), (74928, 5016), (69916, 5016), (69912, 33),
      (69884, 33), (69888, 0), (69892, 0), (69916, 1),
      (69912, 32), (69884, 32), (69880, 3017), (66868, 3017),
      (66872, 0), (66876, 0), (69884, 1), (69880, 3016),
      (66868, 3016), (66864, 33), (66836, 33), (66840, 0),
      (66844, 0), (66868, 1), (66864, 32), (66836, 32),
      (66832, 633), (66204, 633), (66208, 0), (66212, 0),
      (66836, 1), (66832, 632), (66204, 632), (66200, 33),
      (66172, 33), (66176, 0), (66180, 0), (66204, 1),
      (66200, 32), (66172, 32), (66168, 617), (65556, 617),
      (65560, 0), (65564, 0), (66172, 1), (66168, 616),
      (65556, 616), (65556, 1), (65552, 17), (65540, 17)]
     \<lparr>mem = \<lambda>_. 0, first_seg = (\<lambda>_. 0)(10 := 65568), last_seg = (\<lambda>_. 0)(10 := 65568), brk = 74936, max_addr = 131072, heap_lo = 65536\<rparr>"
  by (simp add: heap_l8_def heap_l7_eq ev cong: let_weak_cong)

lemma heap_l9_eq:
  "heap_l9 =
   stores
     [(66212, 0), (66208, 65568), (65564, 66216), (66832, 632),
      (66204, 632), (65560, 0), (65564, 0), (66168, 616),
      (65556, 616), (74928, 5017), (69916, 5017), (69920, 0),
      (69924, 0), (74932, 1), (74928, 5016), (69916, 5016),
      (69912, 33), (69884, 33), (69888, 0), (69892, 0),
      (69916, 1), (69912, 32), (69884, 32), (69880, 3017),
      (66868, 3017), (66872, 0), (66876, 0), (69884, 1),
      (69880, 3016), (66868, 3016), (66864, 33), (66836, 33),
      (66840, 0), (66844, 0), (66868, 1), (66864, 32),
      (66836, 32), (66832, 633), (66204, 633), (66208, 0),
      (66212, 0), (66836, 1), (66832, 632), (66204, 632),
      (66200, 33), (66172, 33), (66176, 0), (66180, 0),
      (66204, 1), (66200, 32), (66172, 32), (66168, 617),
      (65556, 617), (65560, 0), (65564, 0), (66172, 1),
      (66168, 616), (65556, 616), (65556, 1), (65552, 17),
      (65540, 17)]
     \<lparr>mem = \<lambda>_. 0, first_seg = (\<lambda>_. 0)(10 := 65568), last_seg = (\<lambda>_. 0)(10 := 66216), brk = 74936, max_addr = 131072, heap_lo = 65536\<rparr>"
  by (simp add: heap_l9_def heap_l8_eq ev cong: let_weak_cong)

lemma heap_l10_eq:
  "heap_l10 =
   stores
     [(66872, 0), (66876, 0), (69880, 3016), (66868, 3016),
      (66212, 0), (66208, 65568), (65564, 66216), (66832, 632),
      (66204, 632), (65560, 0), (65564, 0), (66168, 616),
      (65556, 616), (74928, 5017), (69916, 5017), (69920, 0),
      (69924, 0), (74932, 1), (74928, 5016), (69916, 5016),
      (69912, 33), (69884, 33), (69888, 0), (69892, 0),
      (69916, 1), (69912, 32), (69884, 32), (69880, 3017),
      (66868, 3017), (66872, 0), (66876, 0), (69884, 1),
      (69880, 3016), (66868, 3016), (66864, 33), (66836, 33),
      (66840, 0), (66844, 0), (66868, 1), (66864, 32),
      (66836, 32), (66832, 633), (66204, 633), (66208, 0),
      (66212, 0), (66836, 1), (66832, 632), (66204, 632),
      (66200, 33), (66172, 33), (66176, 0), (66180, 0),
      (66204, 1), (66200, 32), (66172, 32), (66168, 617),
      (65556, 617), (65560, 0), (65564, 0), (66172, 1),
      (66168, 616), (65556, 616), (65556, 1), (65552, 17),
      (65540, 17)]
     \<lparr>mem = \<lambda>_. 0, first_seg = (\<lambda>_. 0)(10 := 65568, 12 := 66880), last_seg = (\<lambda>_. 0)(10 := 66216, 12 := 66880), brk = 74936, max_addr = 131072, heap_lo = 65536\<rparr>"
  by (simp add: heap_l10_def heap_l9_eq ev cong: let_weak_cong)

lemma heap_lists_eq:
  "heap_lists =
   stores
     [(69920, 0), (69924, 0), (74928, 5016), (69916, 5016),
      (66872, 0), (66876, 0), (69880, 3016), (66868, 3016),
      (66212, 0), (66208, 65568), (65564, 66216), (66832, 632),
      (66204, 632), (65560, 0), (65564, 0), (66168, 616),
      (65556, 616), (74928, 5017), (69916, 5017), (69920, 0),
      (69924, 0), (74932, 1), (74928, 5016), (69916, 5016),
      (69912, 33), (69884, 33), (69888, 0), (69892, 0),
      (69916, 1), (69912, 32), (69884, 32), (69880, 3017),
      (66868, 3017), (66872, 0), (66876, 0), (69884, 1),
      (69880, 3016), (66868, 3016), (66864, 33), (66836, 33),
      (66840, 0), (66844, 0), (66868, 1), (66864, 32),
      (66836, 32), (66832, 633), (66204, 633), (66208, 0),
      (66212, 0), (66836, 1), (66832, 632), (66204, 632),
      (66200, 33), (66172, 33), (66176, 0), (66180, 0),
      (66204, 1), (66200, 32), (66172, 32), (66168, 617),
      (65556, 617), (65560, 0), (65564, 0), (66172, 1),
      (66168, 616), (65556, 616), (65556, 1), (65552, 17),
      (65540, 17)]
     \<lparr>mem = \<lambda>_. 0, first_seg = (\<lambda>_. 0)(10 := 65568, 12 := 66880, 0 := 69928), last_seg = (\<lambda>_. 0)(10 := 66216, 12 := 66880, 0 := 69928), brk = 74936, max_addr = 131072, heap_lo = 65536\<rparr>"
  by (simp add: heap_lists_def heap_l10_eq ev cong: let_weak_cong)

section \<open>The search of \<open>find_block\<close>, initialisation and the failure paths\<close>

lemma unat_pow2: "n < 32 \<Longrightarrow> unat (2 ^ n :: 32 word) = 2 ^ n"
proof -
  assume n: "n < 32"
  have "(2 ^ n :: 32 word) = of_nat (2 ^ n)" by simp
  then have "unat (2 ^ n :: 32 word) = (2 ^ n) mod 2 ^ 32"
    by (simp only: unat_of_nat) simp
  moreover have "(2::nat) ^ n < 2 ^ 32"
    using n by (intro power_strict_increasing) auto
  ultimately show ?thesis by (simp only: mod_less)
qed

lemma list_find_loop_spec:
  "1 \<le> seg \<Longrightarrow> seg \<le> MAX_SEG \<Longrightarrow> limit = 2 ^ seg \<Longrightarrow>
   list_find_loop seg limit sz =
     (case find (\<lambda>i. unat sz \<le> 2 ^ i) [seg..<MAX_SEG] of Some i \<Rightarrow> i | None \<Rightarrow> 0)"
proof (induction seg limit sz rule: list_find_loop.induct)
  case (1 seg limit sz)
  show ?case
  proof (cases "seg < MAX_SEG")
    case False
    then show ?thesis by (simp add: list_find_loop.simps[of seg])
  next
    case True
    then have lim: "unat limit = 2 ^ seg"
      using 1(4) by (simp add: MAX_SEG_def unat_pow2)
    have le: "sz \<le> limit \<longleftrightarrow> unat sz \<le> 2 ^ seg"
      using lim by (simp add: word_le_nat_alt)
    show ?thesis
    proof (cases "sz \<le> limit")
      case yes: True
      with True le show ?thesis
        by (simp add: list_find_loop.simps[of seg] upt_conv_Cons)
    next
      case no: False
      have "list_find_loop (seg + 1) (limit * 2) sz =
        (case find (\<lambda>i. unat sz \<le> 2 ^ i) [seg + 1..<MAX_SEG] of Some i \<Rightarrow> i | None \<Rightarrow> 0)"
        using 1(1)[OF True no] True 1(4) by simp
      with True no le show ?thesis
        by (simp add: list_find_loop.simps[of seg] upt_conv_Cons)
    qed
  qed
qed

lemma list_find_spec: "list_find sz = bucket_of_spec (unat sz)"
  unfolding list_find_def bucket_of_spec_def
  by (rule list_find_loop_spec) (simp_all add: MAX_SEG_def)

lemma find_in_list_chain:
  "chain s p bs \<Longrightarrow> find_in_list s sz p = Some (first_fit s sz bs)"
proof (induction bs arbitrary: p)
  case Nil
  then show ?case by (simp add: find_in_list.simps first_fit_def)
next
  case (Cons b bs)
  then show ?case
    by (subst find_in_list.simps) (auto simp: first_fit_def)
qed

lemma first_fit_append:
  "first_fit s sz (xs @ ys) = (if first_fit s sz xs \<noteq> NULL then first_fit s sz xs else first_fit s sz ys)"
  if "NULL \<notin> set xs"
  using that by (induction xs) (auto simp: first_fit_def)

lemma chain_nonnull: "chain s p bs \<Longrightarrow> NULL \<notin> set bs"
  by (induction bs arbitrary: p) auto

lemma find_from_seg_chain:
  "(\<And>i. seg \<le> i \<Longrightarrow> i < MAX_SEG \<Longrightarrow> chain s (first_seg s i) (fl i)) \<Longrightarrow>
   find_from_seg s sz seg = Some (first_fit s sz (concat (map fl [seg..<MAX_SEG])))"
proof (induction s sz seg rule: find_from_seg.induct)
  case (1 s sz seg)
  show ?case
  proof (cases "seg < MAX_SEG")
    case False
    then show ?thesis by (simp add: find_from_seg.simps[of s sz seg] first_fit_def)
  next
    case True
    have c: "chain s (first_seg s seg) (fl seg)"
      using 1(2)[of seg] True by simp
    note f = find_in_list_chain[OF c, of sz]
    have nn: "NULL \<notin> set (fl seg)" using chain_nonnull[OF c] .
    show ?thesis
    proof (cases "first_fit s sz (fl seg) \<noteq> NULL")
      case hit: True
      with True f nn show ?thesis
        by (simp add: find_from_seg.simps[of s sz seg] upt_conv_Cons first_fit_append)
    next
      case miss: False
      have "find_from_seg s sz (seg + 1) = Some (first_fit s sz (concat (map fl [seg + 1..<MAX_SEG])))"
        using 1(1)[OF True f] miss 1(2) by simp
      with True f nn miss show ?thesis
        by (simp add: find_from_seg.simps[of s sz seg] upt_conv_Cons first_fit_append)
    qed
  qed
qed

text \<open>
  C7: when every list is a null-terminated chain, \<open>list_find\<close> gives the bucket of the
  specification, \<open>find_block(size)\<close> returns the first block of size at least \<open>size\<close> in the
  order bucket \<open>seg\<close>, \<open>seg + 1\<close>, ..., \<open>MAX_SEG - 1\<close> (when \<open>seg > 0\<close>), then bucket \<open>0\<close>, each list
  walked from its head, and it returns null exactly when no block of the searched lists is
  large enough.
\<close>

theorem find_block_first_fit:
  assumes "\<forall>i<MAX_SEG. chain s (first_seg s i) (fl i)"
  shows "list_find sz = bucket_of_spec (unat sz) \<and>
         find_block s sz = Some (first_fit s sz (search_order fl (bucket_of_spec (unat sz)))) \<and>
         (find_block s sz = Some NULL \<longleftrightarrow>
            (\<forall>b \<in> set (search_order fl (bucket_of_spec (unat sz))). UNPACK_SIZE s (HEADER b) < sz))"
proof -
  let ?seg = "bucket_of_spec (unat sz)"
  have seg: "list_find sz = ?seg" by (rule list_find_spec)
  have c0: "chain s (first_seg s 0) (fl 0)"
    using assms by (simp add: MAX_SEG_def)
  have nn: "NULL \<notin> set (fl i)" if "i < MAX_SEG" for i
    using assms that chain_nonnull by blast
  have nn1: "NULL \<notin> set (concat (map fl [?seg..<MAX_SEG]))"
    using nn by auto
  have fb: "find_block s sz = Some (first_fit s sz (search_order fl ?seg))"
  proof (cases "0 < ?seg")
    case True
    have "find_from_seg s sz ?seg = Some (first_fit s sz (concat (map fl [?seg..<MAX_SEG])))"
      using assms by (intro find_from_seg_chain) simp
    with True seg show ?thesis
      by (simp add: find_block_def search_order_def first_fit_append[OF nn1] find_in_list_chain[OF c0])
  next
    case False
    with seg show ?thesis
      by (simp add: find_block_def search_order_def find_in_list_chain[OF c0])
  qed
  have nns: "NULL \<notin> set (search_order fl ?seg)"
    using nn1 nn[of 0] by (simp add: search_order_def MAX_SEG_def)
  have "first_fit s sz bs = NULL \<longleftrightarrow> (\<forall>b \<in> set bs. UNPACK_SIZE s (HEADER b) < sz)"
    if "NULL \<notin> set bs" for bs
    using that by (induction bs) (auto simp: first_fit_def)
  from this[OF nns] seg fb show ?thesis by simp
qed

theorem find_block_first_fit_witness:
  "chain heap_lists (first_seg heap_lists 10) [0x10020, 0x102a8] \<and>
   chain heap_lists (first_seg heap_lists 12) [0x10540] \<and>
   chain heap_lists (first_seg heap_lists 0) [0x11128] \<and>
   list_find 616 = 10 \<and> find_block heap_lists 616 = Some 0x10020 \<and>
   list_find 632 = 10 \<and> find_block heap_lists 632 = Some 0x102a8 \<and>
   list_find 1000 = 10 \<and> find_block heap_lists 1000 = Some 0x10540 \<and>
   list_find 4000 = 12 \<and> find_block heap_lists 4000 = Some 0x11128 \<and>
   list_find 6000 = 0 \<and> find_block heap_lists 6000 = Some NULL"
proof -
  let ?fl = "\<lambda>i::nat. if i = 10 then [0x10020, 0x102a8 :: addr] else if i = 12 then [0x10540]
       else if i = 0 then [0x11128] else []"
  have h: "\<forall>i<MAX_SEG. chain heap_lists (first_seg heap_lists i) (?fl i)"
    by (simp add: heap_lists_eq macro_defs store_simps)
  have c: "chain heap_lists (first_seg heap_lists 10) [0x10020, 0x102a8]"
    "chain heap_lists (first_seg heap_lists 12) [0x10540]"
    "chain heap_lists (first_seg heap_lists 0) [0x11128]"
    by (simp_all add: heap_lists_eq macro_defs store_simps)
  have b: "bucket_of_spec (unat (616 :: 32 word)) = 10" "bucket_of_spec (unat (632 :: 32 word)) = 10"
    "bucket_of_spec (unat (1000 :: 32 word)) = 10" "bucket_of_spec (unat (4000 :: 32 word)) = 12"
    "bucket_of_spec (unat (6000 :: 32 word)) = 0"
    using list_find_spec[of 616] list_find_spec[of 632] list_find_spec[of 1000]
      list_find_spec[of 4000] list_find_spec[of 6000]
    by (simp_all add: list_find_cases)
  have s: "search_order ?fl 10 = [0x10020, 0x102a8, 0x10540, 0x11128]"
    "search_order ?fl 12 = [0x10540, 0x11128]" "search_order ?fl 0 = [0x11128]"
    by (simp_all add: search_order_def MAX_SEG_def upt_rec_numeral)
  have z: "UNPACK_SIZE heap_lists (HEADER 0x10020) = 616"
    "UNPACK_SIZE heap_lists (HEADER 0x102a8) = 632"
    "UNPACK_SIZE heap_lists (HEADER 0x10540) = 3016"
    "UNPACK_SIZE heap_lists (HEADER 0x11128) = 5016"
    by (simp_all add: heap_lists_eq macro_defs store_simps)
  have f: "first_fit heap_lists 616 [0x10020, 0x102a8, 0x10540, 0x11128] = 0x10020"
    "first_fit heap_lists 632 [0x10020, 0x102a8, 0x10540, 0x11128] = 0x102a8"
    "first_fit heap_lists 1000 [0x10020, 0x102a8, 0x10540, 0x11128] = 0x10540"
    "first_fit heap_lists 4000 [0x10540, 0x11128] = 0x11128"
    "first_fit heap_lists 6000 [0x11128] = NULL"
    by (simp_all add: first_fit_def z)
  from find_block_first_fit[OF h, of 616] find_block_first_fit[OF h, of 632]
    find_block_first_fit[OF h, of 1000] find_block_first_fit[OF h, of 4000]
    find_block_first_fit[OF h, of 6000] b s f c
  show ?thesis by simp
qed






text \<open>
  C6: \<open>mm_malloc(0)\<close> returns null and leaves the state as it is; \<open>mm_realloc(NULL, n)\<close> is
  \<open>mm_malloc(n)\<close>; \<open>mm_realloc(p, 0)\<close> for non-null \<open>p\<close> is \<open>mm_free(p)\<close>, returning null.
\<close>

theorem boundary_calls:
  "mm_malloc 0 s = Some (NULL, s) \<and>
   mm_realloc NULL n s = mm_malloc n s \<and>
   (p \<noteq> NULL \<longrightarrow> mm_realloc p 0 s = Some (NULL, mm_free p s))"
  by (simp add: mm_malloc_def mm_realloc_def)

theorem boundary_calls_witness:
  "(0x10020 :: addr) \<noteq> NULL \<and>
   mm_realloc 0x10020 0 heap2 = Some (NULL, mm_free 0x10020 heap2)"
  using boundary_calls[of heap2 0 "0x10020"] by (simp add: NULL_def)

lemma new_block_fails: "sbrk_fails s sz \<Longrightarrow> new_block sz s = (NULL, s)"
  by (simp add: new_block_def mem_sbrk_def)

text \<open>
  C5: when no free block fits and \<open>mem_sbrk\<close> fails, \<open>mm_malloc\<close> returns null, and so does
  \<open>mm_realloc\<close> where it has to allocate another block; the state after the call is the
  state before it (lists, headers, footers, payloads, break).
\<close>

theorem extension_failure:
  assumes "find_block s (ALIGN (n + OVERHEAD)) = Some NULL"
    and "sbrk_fails s (ALIGN (n + OVERHEAD))"
  shows "(n \<noteq> 0 \<longrightarrow> mm_malloc n s = Some (NULL, s)) \<and>
         (realloc_relocates s p n \<longrightarrow> mm_realloc p n s = Some (NULL, s))"
proof -
  have m: "mm_malloc n s = Some (NULL, s)" if "n \<noteq> 0"
    using that assms by (simp add: mm_malloc_def new_block_fails)
  have "mm_realloc p n s = Some (NULL, s)" if "realloc_relocates s p n"
    using that m by (auto simp: realloc_relocates_def mm_realloc_def Let_def)
  with m show ?thesis by simp
qed

theorem extension_failure_witness:
  "find_block heap2 (ALIGN (0x20000 + OVERHEAD)) = Some NULL \<and>
   sbrk_fails heap2 (ALIGN (0x20000 + OVERHEAD)) \<and>
   realloc_relocates heap2 0x10020 0x20000 \<and>
   mm_malloc 0x20000 heap2 = Some (NULL, heap2) \<and>
   mm_realloc 0x10020 0x20000 heap2 = Some (NULL, heap2)"
proof -
  have h1: "find_block heap2 (ALIGN (0x20000 + OVERHEAD)) = Some NULL"
    by (simp add: heap2_eq ev cong: let_weak_cong)
  have h2: "sbrk_fails heap2 (ALIGN (0x20000 + OVERHEAD))"
    by (simp add: heap2_eq ev)
  have h3: "realloc_relocates heap2 0x10020 0x20000"
    by (simp add: realloc_relocates_def heap2_eq ev)
  from extension_failure[OF h1 h2, where p = "0x10020"] h1 h2 h3 show ?thesis
    by simp
qed

section \<open>The paths of \<open>mm_realloc\<close>\<close>




text \<open>
  C2 fails on the code: the shrink path of \<open>mm_realloc\<close> calls \<open>split(bp, size)\<close> with the
  caller's size, where the other paths and \<open>mm_malloc\<close> pass the aligned block size. After
  \<open>a = mm_malloc(1024)\<close>, \<open>mm_realloc(a, 8)\<close> returns \<open>a\<close> with a block of size 8, below the
  minimum of 16.
\<close>

theorem realloc_shrink_block_too_small:
  "mm_malloc 1024 heap1 = Some (0x10020, heap_big) \<and>
   (case mm_realloc 0x10020 8 heap_big of
      None \<Rightarrow> False
    | Some r \<Rightarrow> fst r = 0x10020 \<and> UNPACK_SIZE (snd r) (HEADER 0x10020) = 8 \<and>
        UNPACK_STATE (snd r) (HEADER 0x10020) = ALLOCATED \<and>
        VALUE (snd r) (FOOTER (snd r) 0x10020) = VALUE (snd r) (HEADER 0x10020))"
proof -
  have "mm_malloc 1024 heap1 = Some (0x10020, heap_big)"
    by (simp add: malloc_heap1_big heap_big_eq)
  moreover have "(case mm_realloc 0x10020 8 heap_big of
      None \<Rightarrow> False
    | Some r \<Rightarrow> fst r = 0x10020 \<and> UNPACK_SIZE (snd r) (HEADER 0x10020) = 8 \<and>
        UNPACK_STATE (snd r) (HEADER 0x10020) = ALLOCATED \<and>
        VALUE (snd r) (FOOTER (snd r) 0x10020) = VALUE (snd r) (HEADER 0x10020))"
    by (simp add: heap_big_eq ev cong: let_weak_cong)
  ultimately show ?thesis by blast
qed

text \<open>
  C3 fails on the code: on the shrink path (taken here, \<open>32 + 16 < 1040\<close>) the retained
  block gets the caller's size 16, not \<open>newsize = ALIGN(16 + OVERHEAD) = 32\<close>.
\<close>

theorem realloc_shrink_splits_at_user_size:
  "ALIGN (16 + OVERHEAD) = 32 \<and>
   ALIGN (16 + OVERHEAD) + OVERHEAD < UNPACK_SIZE heap_big (HEADER 0x10020) \<and>
   (case mm_realloc 0x10020 16 heap_big of
      None \<Rightarrow> False
    | Some r \<Rightarrow> fst r = 0x10020 \<and> UNPACK_SIZE (snd r) (HEADER 0x10020) = 16)"
  by (simp add: heap_big_eq ev cong: let_weak_cong)

text \<open>
  C4 fails on the code, by the same call of \<open>split\<close>: \<open>mm_realloc(a, 24)\<close> on the block of 1024
  payload bytes puts the footer of the retained block at payload byte 8 and the header of
  the remainder at payload byte 12, inside the first 24 bytes that were to be kept.
\<close>

theorem realloc_shrink_clobbers_payload:
  "mem heap_big (0x10020 + 8) = 0 \<and> mem heap_big (0x10020 + 12) = 0 \<and>
   (case mm_realloc 0x10020 24 heap_big of
      None \<Rightarrow> False
    | Some r \<Rightarrow> fst r = 0x10020 \<and> mem (snd r) (0x10020 + 8) = 25 \<and>
        mem (snd r) (0x10020 + 12) = 248)"
  by (simp add: heap_big_eq ev2 cong: let_weak_cong)

section \<open>The size of the block that \<open>mm_malloc\<close> returns\<close>

subsection \<open>Reads after the list operations\<close>

lemma apart_sym: "apart a b \<longleftrightarrow> apart b a"
  by (auto simp: apart_def)

lemma apart_shift: "apart (p + x) (p + y) \<longleftrightarrow> apart x y"
  by (simp add: apart_def)

lemma apart_nat:
  assumes "unat x + 4 \<le> unat y" and "unat y \<le> unat x + 4294967292"
  shows "apart x y"
proof -
  have "unat (y - x) = unat y - unat x" and "unat (x - y) = unat x + 2 ^ 32 - unat y"
    using assms by (simp_all add: unat_sub_if_size word_size)
  with assms show ?thesis
    unfolding apart_def word_le_nat_alt by simp arith
qed

lemma VALUE_upd_fields:
  "VALUE (s\<lparr>first_seg := f\<rparr>) q = VALUE s q"
  "VALUE (s\<lparr>last_seg := f\<rparr>) q = VALUE s q"
  "VALUE (s\<lparr>brk := b\<rparr>) q = VALUE s q"
  by (simp_all add: VALUE_def)

lemma VALUE_list_remove:
  assumes "PREV_FREE s bp = NULL \<or> apart (PREV_FREE s bp - 4) q"
    and "NEXT_FREE s bp = NULL \<or> apart (NEXT_FREE s bp - 8) q"
  shows "VALUE (list_remove bp s) q = VALUE s q"
  using assms
  by (auto simp: list_remove_def Let_def set_NEXT_FREE_def set_PREV_FREE_def WORD_def
      VALUE_set_apart VALUE_upd_fields)

lemma last_seg_list_remove:
  "last_seg (list_remove bp s) i =
     (if NEXT_FREE s bp = NULL \<and> i = list_find (UNPACK_SIZE s (HEADER bp))
      then PREV_FREE s bp else last_seg s i)"
  by (auto simp: list_remove_def Let_def set_NEXT_FREE_def set_PREV_FREE_def set_VALUE_fields)

lemma VALUE_list_add:
  assumes "apart (bp - 4) q" and "apart (bp - 8) q"
    and "last_seg s (list_find (UNPACK_SIZE s (HEADER bp))) = NULL \<or>
         apart (last_seg s (list_find (UNPACK_SIZE s (HEADER bp))) - 4) q"
  shows "VALUE (list_add bp s) q = VALUE s q"
  using assms
  by (auto simp: list_add_def Let_def set_NEXT_FREE_def set_PREV_FREE_def WORD_def
      VALUE_set_apart set_VALUE_fields VALUE_upd_fields)

subsection \<open>Alignment\<close>

lemma unat_neg:
  fixes d :: "32 word"
  assumes "d \<noteq> 0"
  shows "unat (- d) = 2 ^ 32 - unat d"
proof -
  have "unat (0 - d) = (if unat d \<le> unat (0 :: 32 word) then unat (0 :: 32 word) - unat d
       else unat (0 :: 32 word) + 2 ^ size (0 :: 32 word) - unat d)"
    by (rule unat_sub_if_size)
  moreover have "unat d \<noteq> 0" using assms by (simp add: unat_eq_0)
  ultimately show ?thesis by (simp add: word_size)
qed

lemma and7_dvd: "x AND 7 = 0 \<longleftrightarrow> 8 dvd x" for x :: "32 word"
proof -
  have "x AND 7 = take_bit 3 x"
    by (simp add: take_bit_eq_mask mask_eq_exp_minus_1)
  then show ?thesis
    using take_bit_eq_0_iff[of 3 x] by simp
qed

lemma dvd_unpack: "8 dvd (v AND NOT 7)" for v :: "32 word"
proof -
  have "(v AND NOT 7) AND 7 = v AND (NOT 7 AND 7)"
    by (simp only: and.assoc)
  then show ?thesis
    by (simp add: and7_dvd[symmetric])
qed

lemma mask_aligned: "x AND NOT 7 = x" if "8 dvd x" for x :: "32 word"
proof -
  have z: "x AND 7 = 0" using that by (simp add: and7_dvd)
  have "x = x AND (NOT 7 OR 7)" by simp
  also have "\<dots> = (x AND NOT 7) OR (x AND 7)"
    by (simp only: bit.conj_disj_distrib)
  finally show ?thesis using z by simp
qed

lemma pack_alloc_size: "(x OR 1) AND NOT 7 = x" if "8 dvd x" for x :: "32 word"
proof -
  have "(x OR 1) AND NOT 7 = (x AND NOT 7) OR (1 AND NOT 7)"
    by (simp only: bit.conj_disj_distrib2)
  then show ?thesis using mask_aligned[OF that] by simp
qed

lemma pack_alloc_state: "(x OR 1) AND 1 = (1 :: 32 word)"
  by (simp add: bit.conj_disj_distrib2)

lemma dvd8_unat: "8 dvd unat x" if "8 dvd x" for x :: "32 word"
  using that and_mask_dvd_nat[of 3 x] by (simp add: and7_dvd[symmetric] mask_eq_exp_minus_1)

text \<open>The same facts with the mask written as the simplifier writes it.\<close>

lemma not7: "NOT 7 = (- 8 :: 32 word)"
  by simp

lemma dvd_unpack': "8 dvd (v AND - 8)" for v :: "32 word"
  using dvd_unpack[of v] by simp

lemma mask_aligned': "x AND - 8 = x" if "8 dvd x" for x :: "32 word"
  using mask_aligned[OF that] by simp

lemma pack_alloc_size': "(x OR 1) AND - 8 = x" if "8 dvd x" for x :: "32 word"
  using pack_alloc_size[OF that] by simp

lemma and_not_mask3_push: "y AND NOT (mask 3) = push_bit 3 (drop_bit 3 y)" for y :: "32 word"
  by (rule bit_word_eqI) (auto simp: bit_simps)

lemma and_not7_push: "y AND NOT 7 = push_bit 3 (drop_bit 3 y)" for y :: "32 word"
proof -
  have "(7 :: 32 word) = mask 3" by (simp add: mask_eq_exp_minus_1)
  then show ?thesis
    by (simp only: and_not_mask3_push)
qed

lemma unat_and_not7: "unat (y AND NOT 7) = unat y div 8 * 8" for y :: "32 word"
proof -
  have "unat (drop_bit 3 y) = drop_bit 3 (unat y)"
    by (rule unat_drop_bit_eq)
  also have "\<dots> = unat y div 8"
    by (simp add: drop_bit_eq_div)
  finally have d: "unat (drop_bit 3 y) = unat y div 8" .
  have "unat y < 4294967296" using unsigned_less[of y] by simp
  then have "unat (drop_bit 3 y) * unat (8 :: 32 word) < 2 ^ LENGTH(32)"
    using d by simp
  then have "unat (drop_bit 3 y * 8) = unat (drop_bit 3 y) * unat (8 :: 32 word)"
    by (simp only: unat_mult_lem)
  then have "unat (push_bit 3 (drop_bit 3 y)) = unat y div 8 * 8"
    by (simp only: push_bit_eq_mult d) simp
  then show ?thesis
    by (simp only: and_not7_push)
qed

subsection \<open>Addresses inside and outside a block\<close>

lemma unat_plus_nowrap:
  fixes a :: addr
  assumes "unat a + k < 4294967296"
  shows "unat (a + of_nat k) = unat a + k"
proof -
  have k: "unat (of_nat k :: addr) = k"
    using assms by (simp add: unat_of_nat)
  have "unat a + unat (of_nat k :: addr) < 2 ^ LENGTH(32)"
    using assms k by simp
  then have "unat (a + of_nat k) = unat a + unat (of_nat k :: addr)"
    by (simp only: unat_add_lem)
  with k show ?thesis by simp
qed

lemma unat_minus_small:
  fixes a :: addr
  assumes "k \<le> unat a"
  shows "unat (a - of_nat k) = unat a - k"
proof -
  have "unat a < 4294967296" using unsigned_less[of a] by simp
  with assms have k: "unat (of_nat k :: addr) = k"
    by (simp add: unat_of_nat)
  then have "(of_nat k :: addr) \<le> a"
    using assms by (simp add: word_le_nat_alt)
  then show ?thesis using k by (simp add: unat_sub)
qed

text \<open>Addresses at an offset from the word before the block.\<close>

lemma block_addr_unat:
  fixes bp :: addr
  assumes "16 \<le> unat bp" and "unat bp + k < 4294967308"
  shows "unat (bp - 16 + of_nat k) = unat bp - 16 + k"
proof -
  have "unat (bp - of_nat 16) = unat bp - 16"
    using assms(1) by (rule unat_minus_small)
  then have b: "unat (bp - 16) = unat bp - 16" by simp
  have "unat (bp - 16) + k < 4294967296" using b assms by simp
  from unat_plus_nowrap[OF this] b show ?thesis by simp
qed

lemma block_addr_apart:
  fixes bp :: addr
  assumes "16 \<le> unat bp" and "unat bp + k < 4294967308" and "j + 4 \<le> k"
  shows "apart (bp - 16 + of_nat j) (bp - 16 + of_nat k)"
    and "apart (bp - 16 + of_nat k) (bp - 16 + of_nat j)"
proof -
  have uj: "unat (bp - 16 + of_nat j) = unat bp - 16 + j"
    using assms by (intro block_addr_unat) simp_all
  have uk: "unat (bp - 16 + of_nat k) = unat bp - 16 + k"
    using assms by (intro block_addr_unat) simp_all
  show "apart (bp - 16 + of_nat j) (bp - 16 + of_nat k)"
    using uj uk assms by (intro apart_nat) linarith+
  then show "apart (bp - 16 + of_nat k) (bp - 16 + of_nat j)"
    by (simp add: apart_sym)
qed

lemma far_apart:
  fixes bp :: addr
  assumes "far bp sz q" and "16 \<le> unat bp" and "unat bp + unat sz < 4294967296"
    and "4 \<le> k" and "k \<le> unat sz + 4"
  shows "apart (q - 4) (bp - 16 + of_nat k)" and "apart (q - 8) (bp - 16 + of_nat k)"
proof -
  have uk: "unat (bp - 16 + of_nat k) = unat bp - 16 + k"
    using assms by (intro block_addr_unat) simp_all
  have q: "16 \<le> unat q" using assms(1) by (simp add: far_def)
  have "unat (q - of_nat 4) = unat q - 4" "unat (q - of_nat 8) = unat q - 8"
    using q by (simp_all add: unat_minus_small del: of_nat_numeral)
  then have u4: "unat (q - 4) = unat q - 4" and u8: "unat (q - 8) = unat q - 8"
    by simp_all
  have lt: "unat q < 4294967296" using unsigned_less[of q] by simp
  consider "unat q + 16 \<le> unat bp" | "unat bp + unat sz \<le> unat q"
    using assms(1) by (auto simp: far_def)
  then have "apart (q - 4) (bp - 16 + of_nat k) \<and> apart (q - 8) (bp - 16 + of_nat k)"
  proof cases
    case 1
    then show ?thesis
      using uk u4 u8 assms(2-) q lt by (intro conjI apart_nat) linarith+
  next
    case 2
    then have "apart (bp - 16 + of_nat k) (q - 4) \<and> apart (bp - 16 + of_nat k) (q - 8)"
      using uk u4 u8 assms(2-) q lt by (intro conjI apart_nat) linarith+
    then show ?thesis by (simp add: apart_sym)
  qed
  then show "apart (q - 4) (bp - 16 + of_nat k)" and "apart (q - 8) (bp - 16 + of_nat k)"
    by simp_all
qed

subsection \<open>Splitting and placing\<close>

lemma set_VALUE_tables:
  "last_seg (set_VALUE p v s) = last_seg s" "first_seg (set_VALUE p v s) = first_seg s"
  by (simp_all add: set_VALUE_def)

lemma split_no_room:
  "UNPACK_SIZE s (HEADER bp) < sz + OVERHEAD \<Longrightarrow> split bp sz s = s"
  by (simp add: split_def)

text \<open>
  Splitting an allocated block whose successor is allocated: the words of the block that
  \<open>split\<close> writes, one after the other, and the remainder appended to its list.
\<close>

lemma list_find_less: "list_find sz < MAX_SEG"
  by (simp add: list_find_cases MAX_SEG_def)

lemma split_header:
  fixes bp sz :: "32 word" and s :: heap_state
  defines "old \<equiv> UNPACK_SIZE s (HEADER bp)"
  assumes al: "8 dvd sz" and nz: "sz \<noteq> 0"
    and room: "unat sz + 16 \<le> unat old"
    and lo: "16 \<le> unat bp" and hi: "unat bp + unat old < 4294967296"
    and nxt: "UNPACK_STATE s (NEXT_HEADER s bp) \<noteq> FREE"
    and ll: "\<And>i. i < MAX_SEG \<Longrightarrow> last_seg s i = NULL \<or> far bp old (last_seg s i)"
  shows "VALUE (split bp sz s) (HEADER bp) = PACK sz ALLOCATED"
proof -
  define A where "A k = bp - 16 + of_nat k" for k :: nat
  define b where "b = unat sz"
  define o' where "o' = unat old"
  have ob: "of_nat b = sz" "of_nat o' = old"
    by (simp_all add: b_def o'_def)
  have dvd_old: "8 dvd old"
    by (simp add: old_def UNPACK_SIZE_def dvd_unpack')
  have b8: "8 \<le> b"
  proof -
    have "8 dvd b" using al by (simp add: b_def dvd8_unat)
    moreover have "b \<noteq> 0" using nz by (simp add: b_def unat_eq_0)
    ultimately show ?thesis by (auto elim: dvdE)
  qed
  have bo: "b + 16 \<le> o'" using room by (simp add: b_def o'_def)
  have hi': "unat bp + o' < 4294967296" using hi by (simp add: o'_def)
  have ap: "apart (A j) (A k)" "apart (A k) (A j)" if "j + 4 \<le> k" "k \<le> o' + 4" for j k
    unfolding A_def using that lo hi' by (intro block_addr_apart; simp)+
  have fa: "apart (q - 4) (A k)" if "far bp old q" "4 \<le> k" "k \<le> o' + 4" for q k
    unfolding A_def using that lo hi by (intro far_apart(1)[where sz = old]) (simp_all add: o'_def)
  \<comment> \<open>the addresses of the source, as offsets\<close>
  have hdr: "HEADER bp = A 4"
    by (simp add: HEADER_def OVERHEAD_def WORD_def A_def)
  have oldsz: "old = sz + (old - sz)" by simp
  have diff: "old - sz = of_nat (o' - b)"
    using bo ob by (simp add: of_nat_diff)
  have dvd_diff: "8 dvd (old - sz)"
    using dvd_old al by simp
  have not_lt: "\<not> old < sz + OVERHEAD"
  proof -
    have "unat (sz + of_nat 16) = unat sz + 16"
      using bo hi' lo by (intro unat_plus_nowrap) (simp add: b_def o'_def)
    then show ?thesis
      using room by (simp add: OVERHEAD_def word_less_nat_alt)
  qed
  define t1 where "t1 = set_VALUE (A 4) (sz OR 1) s"
  define t2 where "t2 = set_VALUE (A b) (sz OR 1) t1"
  define t3 where "t3 = set_VALUE (A (b + 4)) (old - sz) t2"
  define t4 where "t4 = set_VALUE (A o') (old - sz) t3"
  define r where "r = bp + sz"
  have s1: "set_VALUE (HEADER bp) (PACK sz ALLOCATED) s = t1"
    by (simp add: t1_def hdr PACK_def ALLOCATED_def)
  have v1: "UNPACK_SIZE t1 (HEADER bp) = sz"
    by (simp add: t1_def hdr UNPACK_SIZE_def VALUE_set_same pack_alloc_size' al)
  have f1: "FOOTER t1 bp = A b"
    by (simp add: FOOTER_def v1 OVERHEAD_def A_def ob)
  have s2: "set_VALUE (FOOTER t1 bp) (PACK sz ALLOCATED) t1 = t2"
    by (simp add: t2_def f1 PACK_def ALLOCATED_def)
  have v2: "UNPACK_SIZE t2 (HEADER bp) = sz"
    using v1 ap(2)[of 4 b] b8 bo
    by (simp add: t2_def hdr UNPACK_SIZE_def VALUE_set_apart)
  have h2: "NEXT_HEADER t2 bp = A (b + 4)"
    by (simp add: NEXT_HEADER_def v2 OVERHEAD_def WORD_def A_def ob)
  have s3: "set_VALUE (NEXT_HEADER t2 bp) (PACK (old - sz) FREE) t2 = t3"
    by (simp add: t3_def h2 PACK_def FREE_def)
  have v3: "UNPACK_SIZE t3 (HEADER bp) = sz"
    using v2 ap(2)[of 4 "b + 4"] b8 bo
    by (simp add: t3_def hdr UNPACK_SIZE_def VALUE_set_apart)
  have nb3: "NEXT_BLOCK t3 bp = r"
    by (simp add: NEXT_BLOCK_def v3 r_def)
  have hr: "HEADER r = A (b + 4)"
    by (simp add: HEADER_def r_def OVERHEAD_def WORD_def A_def ob)
  have vr3: "UNPACK_SIZE t3 (HEADER r) = old - sz"
    by (simp add: t3_def hr UNPACK_SIZE_def VALUE_set_same mask_aligned' dvd_diff)
  have fr: "FOOTER t3 r = A o'"
    unfolding FOOTER_def vr3 by (simp add: r_def OVERHEAD_def A_def ob)
  have s4: "set_VALUE (FOOTER t3 (NEXT_BLOCK t3 bp)) (PACK (old - sz) FREE) t3 = t4"
    by (simp add: t4_def nb3 fr PACK_def FREE_def)
  have v4: "VALUE t4 (HEADER bp) = sz OR 1"
    using ap(2)[of 4 b] ap(2)[of 4 "b + 4"] ap(2)[of 4 o'] b8 bo
    by (simp add: t4_def t3_def t2_def t1_def hdr VALUE_set_apart VALUE_set_same)
  have nb4: "NEXT_BLOCK t4 bp = r"
    by (simp add: NEXT_BLOCK_def UNPACK_SIZE_def v4 pack_alloc_size' al r_def)
  \<comment> \<open>the remainder is not merged to the left: the word before it is the new footer\<close>
  have pf: "PREV_FOOTER r = A b"
    by (simp add: PREV_FOOTER_def r_def OVERHEAD_def A_def ob)
  have vpf: "VALUE t4 (A b) = sz OR 1"
    using ap(2)[of b "b + 4"] ap(2)[of b o'] b8 bo
    by (simp add: t4_def t3_def t2_def VALUE_set_apart VALUE_set_same)
  have left: "UNPACK_STATE t4 (PREV_FOOTER r) \<noteq> FREE"
    by (simp add: UNPACK_STATE_def pf vpf pack_alloc_state FREE_def)
  \<comment> \<open>nor to the right: the header after it is the old successor's\<close>
  have vr4: "VALUE t4 (HEADER r) = old - sz"
    using ap(2)[of "b + 4" o'] b8 bo
    by (simp add: t4_def t3_def hr VALUE_set_apart VALUE_set_same)
  have "UNPACK_SIZE t4 (HEADER r) = old - sz"
    by (simp add: UNPACK_SIZE_def vr4 mask_aligned' dvd_diff)
  then have nh4: "NEXT_HEADER t4 r = A (o' + 4)"
    unfolding NEXT_HEADER_def by (simp add: r_def OVERHEAD_def WORD_def A_def ob)
  have nh0: "NEXT_HEADER s bp = A (o' + 4)"
    by (simp add: NEXT_HEADER_def old_def[symmetric] OVERHEAD_def WORD_def A_def ob)
  have vnh: "VALUE t4 (A (o' + 4)) = VALUE s (A (o' + 4))"
    using ap(1)[of 4 "o' + 4"] ap(1)[of b "o' + 4"] ap(1)[of "b + 4" "o' + 4"]
      ap(1)[of o' "o' + 4"] b8 bo
    by (simp add: t4_def t3_def t2_def t1_def VALUE_set_apart)
  have right: "UNPACK_STATE t4 (NEXT_HEADER t4 r) \<noteq> FREE"
    using nxt by (simp add: UNPACK_STATE_def nh4 vnh nh0)
  have co: "coalesce r t4 = (r, list_add r t4)"
    using left right by (simp add: coalesce_def Let_def)
  \<comment> \<open>appending the remainder writes its two links and the link of the old tail\<close>
  have lr: "r - 4 = A (b + 12)" "r - 8 = A (b + 8)"
    by (simp_all add: r_def A_def ob)
  have tl: "last_seg t4 i = last_seg s i" for i
    by (simp add: t4_def t3_def t2_def t1_def set_VALUE_tables)
  have "VALUE (list_add r t4) (A 4) = VALUE t4 (A 4)"
  proof (rule VALUE_list_add)
    show "apart (r - 4) (A 4)" "apart (r - 8) (A 4)"
      using ap(2)[of 4 "b + 12"] ap(2)[of 4 "b + 8"] bo by (simp_all add: lr)
    show "last_seg t4 (list_find (UNPACK_SIZE t4 (HEADER r))) = NULL \<or>
        apart (last_seg t4 (list_find (UNPACK_SIZE t4 (HEADER r))) - 4) (A 4)"
      using ll[of "list_find (UNPACK_SIZE t4 (HEADER r))"] fa[of _ 4] by (auto simp: tl list_find_less)
  qed
  moreover have "split bp sz s = list_add r t4"
    by (simp only: split_def Let_def old_def[symmetric] not_lt if_False s1 s2 s3 s4 nb4 co snd_conv)
  ultimately show ?thesis
    using v4 by (simp add: hdr PACK_def ALLOCATED_def)
qed

lemma place_header:
  fixes bp bsize :: "32 word" and s :: heap_state
  defines "old \<equiv> UNPACK_SIZE s (HEADER bp)"
  assumes al: "8 dvd bsize" and nz: "bsize \<noteq> 0" and fit: "unat bsize \<le> unat old"
    and lo: "16 \<le> unat bp" and hi: "unat bp + unat old < 4294967296"
    and nxt: "UNPACK_STATE s (NEXT_HEADER s bp) \<noteq> FREE"
    and pl: "PREV_FREE s bp = NULL \<or> far bp old (PREV_FREE s bp)"
    and nl: "NEXT_FREE s bp = NULL \<or> far bp old (NEXT_FREE s bp)"
    and ll: "\<And>i. i < MAX_SEG \<Longrightarrow> last_seg s i = NULL \<or> far bp old (last_seg s i) \<or>
               (last_seg s i = bp \<and> NEXT_FREE s bp = NULL \<and> i = list_find old)"
  shows "unat (UNPACK_SIZE (snd (mm_malloc_place bp bsize s)) (HEADER bp)) < unat bsize + 16"
proof -
  define A where "A k = bp - 16 + of_nat k" for k :: nat
  define o' where "o' = unat old"
  have ob: "of_nat o' = old" by (simp add: o'_def)
  have dvd_old: "8 dvd old"
    by (simp add: old_def UNPACK_SIZE_def dvd_unpack')
  have o8: "o' = 0 \<or> 8 \<le> o'"
    using dvd8_unat[OF dvd_old] by (auto simp: o'_def elim: dvdE)
  have hi': "unat bp + o' < 4294967296" using hi by (simp add: o'_def)
  have ap: "apart (A j) (A k)" "apart (A k) (A j)" if "j + 4 \<le> k" "k \<le> o' + 4" for j k
    unfolding A_def using that lo hi' by (intro block_addr_apart; simp)+
  have fa: "apart (q - 4) (A k)" "apart (q - 8) (A k)"
    if "far bp old q" "4 \<le> k" "k \<le> o' + 4" for q k
    unfolding A_def using that lo hi
    by (intro far_apart(1)[where sz = old] far_apart(2)[where sz = old]; simp add: o'_def)+
  have hdr: "HEADER bp = A 4"
    by (simp add: HEADER_def OVERHEAD_def WORD_def A_def)
  \<comment> \<open>taking the block off its list leaves the words of the block alone\<close>
  define s1 where "s1 = list_remove bp s"
  have v1: "VALUE s1 (A k) = VALUE s (A k)" if "4 \<le> k" "k \<le> o' + 4" for k
    unfolding s1_def using pl nl fa[OF _ that] by (intro VALUE_list_remove) auto
  have l1: "last_seg s1 i = NULL \<or> far bp old (last_seg s1 i)" if "i < MAX_SEG" for i
    using ll[OF that] pl by (auto simp: s1_def last_seg_list_remove old_def)
  have sz1: "UNPACK_SIZE s1 (HEADER bp) = old"
    by (simp add: UNPACK_SIZE_def hdr v1 old_def)
  define s2 where "s2 = set_VALUE (A 4) (old OR 1) s1"
  have r2: "REPACK_STATE (HEADER bp) ALLOCATED s1 = s2"
    unfolding REPACK_STATE_def sz1 by (simp add: PACK_def ALLOCATED_def s2_def hdr)
  have sz2: "UNPACK_SIZE s2 (HEADER bp) = old"
    by (simp add: UNPACK_SIZE_def hdr s2_def VALUE_set_same pack_alloc_size' dvd_old)
  have ft2: "FOOTER s2 bp = A o'"
    unfolding FOOTER_def sz2 by (simp add: OVERHEAD_def A_def ob)
  define s3 where "s3 = set_VALUE (A o') (UNPACK_SIZE s2 (A o') OR 1) s2"
  have r3: "REPACK_STATE (FOOTER s2 bp) ALLOCATED s2 = s3"
    by (simp add: REPACK_STATE_def ft2 PACK_def ALLOCATED_def s3_def)
  have a40: "apart (A o') (A 4)"
    using o8 ap(1)[of 0 4] ap(2)[of 4 o'] by auto
  have sz3: "UNPACK_SIZE s3 (HEADER bp) = old"
    using sz2 a40 by (simp add: UNPACK_SIZE_def hdr s3_def VALUE_set_apart)
  have pl3: "mm_malloc_place bp bsize s = (bp, split bp bsize s3)"
    by (simp only: mm_malloc_place_def Let_def s1_def[symmetric] r2 r3)
  show ?thesis
  proof (cases "old < bsize + OVERHEAD")
    case True
    then have "split bp bsize s3 = s3"
      by (simp add: split_no_room sz3)
    moreover have "unat old < unat bsize + 16"
    proof -
      have "unat (bsize + of_nat 16) = unat bsize + 16"
        using fit hi lo by (intro unat_plus_nowrap) simp
      then show ?thesis
        using True by (simp add: OVERHEAD_def word_less_nat_alt)
    qed
    ultimately show ?thesis by (simp add: pl3 sz3)
  next
    case False
    have room: "unat bsize + 16 \<le> unat old"
    proof -
      have "unat (bsize + of_nat 16) = unat bsize + 16"
        using fit hi lo by (intro unat_plus_nowrap) simp
      then show ?thesis
        using False by (simp add: OVERHEAD_def word_less_nat_alt)
    qed
    moreover have "8 \<le> unat bsize"
    proof -
      have "unat bsize \<noteq> 0" using nz by (simp add: unat_eq_0)
      then show ?thesis using dvd8_unat[OF al] by (auto elim: dvdE)
    qed
    ultimately have o24: "24 \<le> o'" by (simp add: o'_def)
    have nh3: "NEXT_HEADER s3 bp = A (o' + 4)"
      unfolding NEXT_HEADER_def sz3 by (simp add: OVERHEAD_def WORD_def A_def ob)
    have nh0: "NEXT_HEADER s bp = A (o' + 4)"
      by (simp add: NEXT_HEADER_def old_def[symmetric] OVERHEAD_def WORD_def A_def ob)
    have "VALUE s3 (A (o' + 4)) = VALUE s (A (o' + 4))"
      using ap(1)[of o' "o' + 4"] ap(1)[of 4 "o' + 4"] o24 v1[of "o' + 4"]
      by (simp add: s3_def s2_def VALUE_set_apart)
    then have nxt3: "UNPACK_STATE s3 (NEXT_HEADER s3 bp) \<noteq> FREE"
      using nxt by (simp add: UNPACK_STATE_def nh3 nh0)
    have l3: "last_seg s3 i = NULL \<or> far bp (UNPACK_SIZE s3 (HEADER bp)) (last_seg s3 i)"
      if "i < MAX_SEG" for i
    proof -
      have "last_seg s3 i = last_seg s1 i"
        by (simp add: s3_def s2_def set_VALUE_tables)
      then show ?thesis using l1[OF that] by (simp only: sz3)
    qed
    have "VALUE (split bp bsize s3) (HEADER bp) = PACK bsize ALLOCATED"
      using al nz room lo hi nxt3 l3 by (intro split_header) (simp_all add: sz3)
    then have "UNPACK_SIZE (split bp bsize s3) (HEADER bp) = bsize"
      by (simp add: UNPACK_SIZE_def PACK_def ALLOCATED_def pack_alloc_size' al)
    then show ?thesis by (simp add: pl3)
  qed
qed

subsection \<open>Consequences of well-formedness\<close>

lemma unat_add_nowrap:
  fixes a b :: "32 word"
  assumes "unat a + unat b < 4294967296"
  shows "unat (a + b) = unat a + unat b"
proof -
  have "unat a + unat b < 2 ^ LENGTH(32)" using assms by simp
  then show ?thesis by (simp only: unat_add_lem)
qed

lemma tiled_bounds:
  assumes "tiled s p bs" and "b \<in> set bs" and "unat (brk s) + 8 < 4294967296"
  shows "unat p \<le> unat b \<and> 16 \<le> unat (UNPACK_SIZE s (HEADER b)) \<and>
         unat b + unat (UNPACK_SIZE s (HEADER b)) \<le> unat (brk s) + 8"
  using assms
proof (induction bs arbitrary: p)
  case Nil
  then show ?case by simp
next
  case (Cons x xs)
  show ?case
  proof (cases "b = x")
    case True
    with Cons.prems show ?thesis by simp
  next
    case False
    with Cons.prems have b: "b \<in> set xs" and t: "tiled s (x + UNPACK_SIZE s (HEADER x)) xs"
      and px: "p = x" by simp_all
    have "unat (x + UNPACK_SIZE s (HEADER x)) = unat x + unat (UNPACK_SIZE s (HEADER x))"
      using Cons.prems by (intro unat_add_nowrap) simp
    with Cons.IH[OF t b Cons.prems(3)] px show ?thesis by simp
  qed
qed

lemma tiled_disjoint:
  assumes "tiled s p bs" and "b \<in> set bs" and "c \<in> set bs" and "b \<noteq> c"
    and "unat (brk s) + 8 < 4294967296"
  shows "unat b + unat (UNPACK_SIZE s (HEADER b)) \<le> unat c \<or>
         unat c + unat (UNPACK_SIZE s (HEADER c)) \<le> unat b"
  using assms
proof (induction bs arbitrary: p)
  case Nil
  then show ?case by simp
next
  case (Cons x xs)
  have t: "tiled s (x + UNPACK_SIZE s (HEADER x)) xs" using Cons.prems by simp
  have u: "unat (x + UNPACK_SIZE s (HEADER x)) = unat x + unat (UNPACK_SIZE s (HEADER x))"
    using Cons.prems by (intro unat_add_nowrap) simp
  note tb = tiled_bounds[OF t _ Cons.prems(5)]
  consider "b = x" "c \<in> set xs" | "c = x" "b \<in> set xs" | "b \<in> set xs" "c \<in> set xs"
    using Cons.prems by auto
  then show ?case
  proof cases
    case 1
    with tb[of c] u show ?thesis by simp
  next
    case 2
    with tb[of b] u show ?thesis by simp
  next
    case 3
    with Cons.IH[OF t] Cons.prems show ?thesis by simp
  qed
qed

lemma tiled_end: "tiled s p [] \<Longrightarrow> VALUE s (HEADER p) = PACK 0 ALLOCATED"
  by auto

lemma tiled_tail: "tiled s p (b # bs) \<Longrightarrow> tiled s (b + UNPACK_SIZE s (HEADER b)) bs"
  by auto

lemma tiled_next_allocated:
  assumes "tiled s p bs" and "no_adjacent_free s bs" and "b \<in> set bs"
    and "UNPACK_STATE s (HEADER b) = FREE"
  shows "UNPACK_STATE s (NEXT_HEADER s b) \<noteq> FREE"
  using assms
proof (induction bs arbitrary: p)
  case Nil
  then show ?case by simp
next
  case (Cons x xs)
  have nh: "NEXT_HEADER s x = HEADER (x + UNPACK_SIZE s (HEADER x))"
    by (simp add: NEXT_HEADER_def HEADER_def)
  show ?case
  proof (cases "b = x")
    case True
    show ?thesis
    proof (cases xs)
      case Nil
      with Cons.prems(1) have "tiled s (x + UNPACK_SIZE s (HEADER x)) []"
        using tiled_tail by blast
      then have v: "VALUE s (HEADER (x + UNPACK_SIZE s (HEADER x))) = PACK 0 ALLOCATED"
        by (rule tiled_end)
      show ?thesis
        unfolding True nh UNPACK_STATE_def v by (simp add: PACK_def ALLOCATED_def FREE_def)
    next
      case (Cons c cs)
      with Cons.prems True show ?thesis
        by (auto simp: nh)
    qed
  next
    case False
    have "no_adjacent_free s xs"
      using Cons.prems(2) by (cases xs) simp_all
    with False Cons show ?thesis by auto
  qed
qed

lemma dchain_chain: "dchain s prev p xs lst \<Longrightarrow> chain s p xs"
  by (induction xs arbitrary: prev p) auto

lemma dchain_links:
  assumes "dchain s prev p xs lst" and "distinct xs" and "prev \<notin> set xs" and "b \<in> set xs"
  shows "PREV_FREE s b \<in> insert prev (set xs) - {b} \<and>
         NEXT_FREE s b \<in> insert NULL (set xs) - {b}"
  using assms
proof (induction xs arbitrary: prev p)
  case Nil
  then show ?case by simp
next
  case (Cons x xs)
  have d: "dchain s x (NEXT_FREE s x) xs lst" and px: "PREV_FREE s x = prev" and xn: "x \<noteq> NULL"
    using Cons.prems by simp_all
  show ?case
  proof (cases "b = x")
    case True
    have "NEXT_FREE s x \<in> insert NULL (set xs)"
      using d by (cases xs) auto
    moreover have "NEXT_FREE s x \<noteq> x"
      using d Cons.prems(2) xn by (cases xs) auto
    ultimately show ?thesis
      using True px Cons.prems by auto
  next
    case False
    then have "b \<in> set xs" using Cons.prems by simp
    from Cons.IH[OF d _ _ this] Cons.prems show ?thesis by auto
  qed
qed

lemma dchain_last:
  assumes "dchain s prev p xs lst"
  shows "lst = (if xs = [] then prev else last xs) \<and>
         (xs \<noteq> [] \<longrightarrow> NEXT_FREE s (last xs) = NULL)"
  using assms
proof (induction xs arbitrary: prev p)
  case Nil
  then show ?case by simp
next
  case (Cons x xs)
  have d: "dchain s x (NEXT_FREE s x) xs lst" using Cons.prems by simp
  from Cons.IH[OF d] d show ?case
    by (cases xs) auto
qed

lemma dchain_nonnull: "dchain s prev p xs lst \<Longrightarrow> NULL \<notin> set xs"
  by (induction xs arbitrary: prev p) auto

lemma first_fit_in:
  assumes "first_fit s sz xs \<noteq> NULL"
  shows "first_fit s sz xs \<in> set xs \<and> sz \<le> UNPACK_SIZE s (HEADER (first_fit s sz xs))"
  using assms by (induction xs) (auto simp: first_fit_def)

lemma search_order_subset:
  "set (search_order fl seg) \<subseteq> (\<Union>i\<in>{..<MAX_SEG}. set (fl i))"
proof
  fix x assume "x \<in> set (search_order fl seg)"
  then consider i where "seg \<le> i" "i < MAX_SEG" "x \<in> set (fl i)" | "x \<in> set (fl 0)"
    by (auto simp: search_order_def split: if_splits)
  then show "x \<in> (\<Union>i\<in>{..<MAX_SEG}. set (fl i))"
  proof cases
    case 1 then show ?thesis by auto
  next
    case 2
    moreover have "(0::nat) < MAX_SEG" by (simp add: MAX_SEG_def)
    ultimately show ?thesis by blast
  qed
qed

lemma find_block_search:
  assumes "\<forall>i<MAX_SEG. chain s (first_seg s i) (fl i)"
  shows "find_block s sz = Some (first_fit s sz (search_order fl (list_find sz)))"
proof -
  let ?seg = "list_find sz"
  have c0: "chain s (first_seg s 0) (fl 0)"
    using assms by (simp add: MAX_SEG_def)
  have nn: "NULL \<notin> set (fl i)" if "i < MAX_SEG" for i
    using assms that chain_nonnull by blast
  have nn1: "NULL \<notin> set (concat (map fl [?seg..<MAX_SEG]))"
    using nn by auto
  show ?thesis
  proof (cases "0 < ?seg")
    case True
    have "find_from_seg s sz ?seg = Some (first_fit s sz (concat (map fl [?seg..<MAX_SEG])))"
      using assms by (intro find_from_seg_chain) simp
    with True show ?thesis
      by (simp add: find_block_def search_order_def first_fit_append[OF nn1] find_in_list_chain[OF c0])
  next
    case False
    then show ?thesis
      by (simp add: find_block_def search_order_def find_in_list_chain[OF c0])
  qed
qed

text \<open>What the invariants give for a block that is on a free list.\<close>

lemma inv_listed:
  assumes inv: "heap_inv s b0 bs fl" and i: "i < MAX_SEG" and bp: "bp \<in> set (fl i)"
  shows "bp \<in> set bs" and "UNPACK_STATE s (HEADER bp) = FREE"
    and "list_find (UNPACK_SIZE s (HEADER bp)) = i"
proof -
  have "bp \<in> set (concat (map fl [0..<MAX_SEG]))"
    using i bp by auto
  moreover have "set (concat (map fl [0..<MAX_SEG])) = set (filter (\<lambda>b. UNPACK_STATE s (HEADER b) = FREE) bs)"
    using inv unfolding heap_inv_def by blast
  ultimately have "bp \<in> set (filter (\<lambda>b. UNPACK_STATE s (HEADER b) = FREE) bs)"
    by blast
  then show "bp \<in> set bs" and "UNPACK_STATE s (HEADER bp) = FREE"
    by simp_all
  show "list_find (UNPACK_SIZE s (HEADER bp)) = i"
    using inv i bp by (simp add: heap_inv_def)
qed

lemma inv_block:
  assumes inv: "heap_inv s b0 bs fl" and bp: "bp \<in> set bs"
  shows "28 \<le> unat bp" and "16 \<le> unat (UNPACK_SIZE s (HEADER bp))"
    and "unat bp + unat (UNPACK_SIZE s (HEADER bp)) \<le> unat (brk s) + 8"
    and "unat (brk s) + 8 < 4294967296"
proof -
  have b: "unat (brk s) + 8 < 4294967296" and t: "tiled s b0 bs" and b0: "28 \<le> unat b0"
    using inv by (simp_all add: heap_inv_def)
  from tiled_bounds[OF t bp b] b0 b
  show "28 \<le> unat bp" and "16 \<le> unat (UNPACK_SIZE s (HEADER bp))"
    and "unat bp + unat (UNPACK_SIZE s (HEADER bp)) \<le> unat (brk s) + 8"
    and "unat (brk s) + 8 < 4294967296"
    by simp_all
qed

lemma inv_far:
  assumes inv: "heap_inv s b0 bs fl" and bp: "bp \<in> set bs" and q: "q \<in> set bs" and ne: "q \<noteq> bp"
  shows "far bp (UNPACK_SIZE s (HEADER bp)) q"
proof -
  have b: "unat (brk s) + 8 < 4294967296" and t: "tiled s b0 bs"
    using inv by (simp_all add: heap_inv_def)
  from tiled_disjoint[OF t q bp ne b] inv_block(1,2)[OF inv q]
  show ?thesis by (auto simp: far_def)
qed

lemma inv_links:
  assumes inv: "heap_inv s b0 bs fl" and i: "i < MAX_SEG" and bp: "bp \<in> set (fl i)"
  shows "PREV_FREE s bp \<in> insert NULL (set (fl i)) - {bp}"
    and "NEXT_FREE s bp \<in> insert NULL (set (fl i)) - {bp}"
proof -
  have d: "dchain s NULL (first_seg s i) (fl i) (last_seg s i)"
    using inv i by (simp add: heap_inv_def)
  have "distinct (concat (map fl [0..<MAX_SEG]))"
    using inv by (simp add: heap_inv_def)
  then have di: "distinct (fl i)"
    using i by (auto simp: distinct_concat_iff)
  from dchain_links[OF d di dchain_nonnull[OF d] bp]
  show "PREV_FREE s bp \<in> insert NULL (set (fl i)) - {bp}"
    and "NEXT_FREE s bp \<in> insert NULL (set (fl i)) - {bp}"
    by simp_all
qed

lemma inv_last:
  assumes inv: "heap_inv s b0 bs fl" and i: "i < MAX_SEG"
  shows "last_seg s i \<in> insert NULL (set (fl i))"
    and "last_seg s i \<noteq> NULL \<Longrightarrow> NEXT_FREE s (last_seg s i) = NULL"
proof -
  have d: "dchain s NULL (first_seg s i) (fl i) (last_seg s i)"
    using inv i by (simp add: heap_inv_def)
  from dchain_last[OF d]
  show "last_seg s i \<in> insert NULL (set (fl i))"
    and "last_seg s i \<noteq> NULL \<Longrightarrow> NEXT_FREE s (last_seg s i) = NULL"
    by (auto split: if_splits)
qed

text \<open>Placing a request in a block that was found on a free list.\<close>

lemma place_listed:
  assumes inv: "heap_inv s b0 bs fl" and i: "i < MAX_SEG" and bp: "bp \<in> set (fl i)"
    and al: "8 dvd bsize" and nz: "bsize \<noteq> 0"
    and fit: "bsize \<le> UNPACK_SIZE s (HEADER bp)"
  shows "unat (UNPACK_SIZE (snd (mm_malloc_place bp bsize s)) (HEADER bp)) < unat bsize + 16"
proof -
  let ?old = "UNPACK_SIZE s (HEADER bp)"
  note L = inv_listed[OF inv i bp]
  note B = inv_block[OF inv L(1)]
  have t: "tiled s b0 bs" and naf: "no_adjacent_free s bs"
    using inv by (simp_all add: heap_inv_def)
  have others: "q = NULL \<or> far bp ?old q" if "q \<in> insert NULL (set (fl j)) - {bp}" "j < MAX_SEG" for q j
  proof (cases "q = NULL")
    case False
    then have "q \<in> set (fl j)" "q \<noteq> bp" using that by auto
    then show ?thesis
      using inv_far[OF inv L(1) inv_listed(1)[OF inv that(2)]] by blast
  qed simp
  show ?thesis
  proof (rule place_header[OF al nz])
    show "unat bsize \<le> unat ?old" using fit by (simp add: word_le_nat_alt)
    show "16 \<le> unat bp" using B(1) by simp
    show "unat bp + unat ?old < 4294967296" using B(3,4) by simp
    show "UNPACK_STATE s (NEXT_HEADER s bp) \<noteq> FREE"
      using tiled_next_allocated[OF t naf L(1) L(2)] B(4) by simp
    show "PREV_FREE s bp = NULL \<or> far bp ?old (PREV_FREE s bp)"
      using others[OF inv_links(1)[OF inv i bp] i] .
    show "NEXT_FREE s bp = NULL \<or> far bp ?old (NEXT_FREE s bp)"
      using others[OF inv_links(2)[OF inv i bp] i] .
    show "last_seg s j = NULL \<or> far bp ?old (last_seg s j) \<or>
               (last_seg s j = bp \<and> NEXT_FREE s bp = NULL \<and> j = list_find ?old)"
      if j: "j < MAX_SEG" for j
    proof (cases "last_seg s j = bp")
      case True
      have "bp \<noteq> NULL" using B(1) by (auto simp: NULL_def)
      then have "NEXT_FREE s bp = NULL"
        using inv_last(2)[OF inv j] True by simp
      moreover have "bp \<in> set (fl j)"
        using inv_last(1)[OF inv j] True \<open>bp \<noteq> NULL\<close> by auto
      then have "list_find ?old = j"
        using inv_listed(3)[OF inv j] by simp
      ultimately show ?thesis using True by simp
    next
      case False
      then show ?thesis
        using others[OF _ j, of "last_seg s j"] inv_last(1)[OF inv j] by blast
    qed
  qed
qed

lemma place_found:
  assumes inv: "heap_inv s b0 bs fl" and f: "find_block s bsize = Some bp" and nn: "bp \<noteq> NULL"
    and al: "8 dvd bsize" and nz: "bsize \<noteq> 0"
  shows "unat (UNPACK_SIZE (snd (mm_malloc_place bp bsize s)) (HEADER bp)) < unat bsize + 16"
proof -
  have ch: "\<forall>i<MAX_SEG. chain s (first_seg s i) (fl i)"
    using inv dchain_chain by (auto simp: heap_inv_def)
  have "bp = first_fit s bsize (search_order fl (list_find bsize))"
    using find_block_search[OF ch, of bsize] f by simp
  with first_fit_in[of s bsize "search_order fl (list_find bsize)"] nn
  have "bp \<in> set (search_order fl (list_find bsize))" and fit: "bsize \<le> UNPACK_SIZE s (HEADER bp)"
    by simp_all
  then obtain i where "i < MAX_SEG" "bp \<in> set (fl i)"
    using search_order_subset[of fl "list_find bsize"] by auto
  then show ?thesis
    using place_listed[OF inv _ _ al nz fit] by blast
qed

subsection \<open>A block obtained from \<open>new_block\<close>\<close>

lemma aligned_state: "x AND 1 = 0" if "8 dvd x" for x :: "32 word"
proof -
  have z: "x AND 7 = 0" using that by (simp add: and7_dvd)
  have "x AND 1 = x AND (7 AND 1)" by simp
  also have "\<dots> = (x AND 7) AND 1" by (simp only: and.assoc)
  also have "\<dots> = 0" by (simp only: z) simp
  finally show ?thesis .
qed

lemma apart_links: "apart (bp - 4) (bp - 8)" "apart (bp - 8) (bp - 4)" for bp :: addr
  by (simp_all add: apart_def)

lemma list_add_links:
  "NEXT_FREE (list_add bp s) bp = NULL"
  "PREV_FREE (list_add bp s) bp = last_seg s (list_find (UNPACK_SIZE s (HEADER bp)))"
  "last_seg (list_add bp s) i =
     (if i = list_find (UNPACK_SIZE s (HEADER bp)) then bp else last_seg s i)"
  by (auto simp: list_add_def Let_def NEXT_FREE_def PREV_FREE_def set_NEXT_FREE_def
      set_PREV_FREE_def WORD_def VALUE_set_same VALUE_set_apart apart_links set_VALUE_fields
      VALUE_upd_fields)

lemma place_after_add:
  fixes bp nsz bsize :: "32 word" and t :: heap_state
  assumes hdr: "VALUE t (HEADER bp) = nsz" and al: "8 dvd nsz" and n16: "16 \<le> unat nsz"
    and lo: "16 \<le> unat bp" and hi: "unat bp + unat nsz < 4294967296"
    and nxt: "VALUE t (HEADER bp + nsz) = PACK 0 ALLOCATED"
    and ll: "\<And>i. i < MAX_SEG \<Longrightarrow> below bp (last_seg t i)"
    and alb: "8 dvd bsize" and nz: "bsize \<noteq> 0" and fit: "unat bsize \<le> unat nsz"
  shows "unat (UNPACK_SIZE (snd (mm_malloc_place bp bsize (list_add bp t))) (HEADER bp))
           < unat bsize + 16"
proof -
  define A where "A k = bp - 16 + of_nat k" for k :: nat
  define n where "n = unat nsz"
  define s' where "s' = list_add bp t"
  have nb: "of_nat n = nsz" by (simp add: n_def)
  have hi': "unat bp + n < 4294967296" using hi by (simp add: n_def)
  have n16': "16 \<le> n" using n16 by (simp add: n_def)
  have ap: "apart (A j) (A k)" "apart (A k) (A j)" if "j + 4 \<le> k" "k \<le> n + 4" for j k
    unfolding A_def using that lo hi' by (intro block_addr_apart; simp)+
  have far_below: "far bp nsz q" if "below bp q" "q \<noteq> NULL" for q
    using that by (simp add: below_def far_def)
  have fa: "apart (q - 4) (A k)" if "below bp q" "q \<noteq> NULL" "4 \<le> k" "k \<le> n + 4" for q k
    unfolding A_def using far_below[OF that(1,2)] that lo hi
    by (intro far_apart(1)[where sz = nsz]) (simp_all add: n_def)
  have hd: "HEADER bp = A 4"
    by (simp add: HEADER_def OVERHEAD_def WORD_def A_def)
  have lk: "bp - 4 = A 12" "bp - 8 = A 8"
    by (simp_all add: A_def)
  have sz: "UNPACK_SIZE t (HEADER bp) = nsz"
    by (simp add: UNPACK_SIZE_def hdr mask_aligned' al)
  let ?seg = "list_find nsz"
  have keep: "VALUE s' (A k) = VALUE t (A k)" if "k = 4 \<or> 16 \<le> k" "k \<le> n + 4" for k
    unfolding s'_def
  proof (rule VALUE_list_add)
    show "apart (bp - 4) (A k)" "apart (bp - 8) (A k)"
      using that ap(1)[of 12 k] ap(1)[of 8 k] ap(2)[of 4 12] ap(2)[of 4 8] n16'
      by (auto simp: lk)
    show "last_seg t (list_find (UNPACK_SIZE t (HEADER bp))) = NULL \<or>
        apart (last_seg t (list_find (UNPACK_SIZE t (HEADER bp))) - 4) (A k)"
    proof (cases "last_seg t ?seg = NULL")
      case True
      then show ?thesis by (simp add: sz)
    next
      case False
      have "below bp (last_seg t ?seg)" by (rule ll[OF list_find_less])
      then have "apart (last_seg t ?seg - 4) (A k)"
        using False that n16' by (intro fa) auto
      then show ?thesis by (simp add: sz)
    qed
  qed
  have sz': "UNPACK_SIZE s' (HEADER bp) = nsz"
    using keep[of 4] by (simp add: UNPACK_SIZE_def hd hdr[unfolded hd] mask_aligned' al)
  have nh: "HEADER bp + nsz = A (n + 4)"
    by (simp add: hd A_def nb)
  have nh': "NEXT_HEADER s' bp = A (n + 4)"
    unfolding NEXT_HEADER_def sz' by (simp add: OVERHEAD_def WORD_def A_def nb)
  have nx': "UNPACK_STATE s' (NEXT_HEADER s' bp) \<noteq> FREE"
    using keep[of "n + 4"] n16' nxt[unfolded nh]
    by (simp add: nh' UNPACK_STATE_def PACK_def ALLOCATED_def FREE_def)
  have pf: "PREV_FREE s' bp = last_seg t ?seg" and nf: "NEXT_FREE s' bp = NULL"
    and ls: "last_seg s' i = (if i = ?seg then bp else last_seg t i)" for i
    by (simp_all add: s'_def list_add_links sz)
  have "unat (UNPACK_SIZE (snd (mm_malloc_place bp bsize s')) (HEADER bp)) < unat bsize + 16"
  proof (rule place_header[OF alb nz])
    show "unat bsize \<le> unat (UNPACK_SIZE s' (HEADER bp))" using fit by (simp add: sz')
    show "16 \<le> unat bp" by (rule lo)
    show "unat bp + unat (UNPACK_SIZE s' (HEADER bp)) < 4294967296" using hi by (simp add: sz')
    show "UNPACK_STATE s' (NEXT_HEADER s' bp) \<noteq> FREE" by (rule nx')
    show "PREV_FREE s' bp = NULL \<or> far bp (UNPACK_SIZE s' (HEADER bp)) (PREV_FREE s' bp)"
      using ll[of ?seg] far_below[of "last_seg t ?seg"] by (auto simp: pf sz' list_find_less)
    show "NEXT_FREE s' bp = NULL \<or> far bp (UNPACK_SIZE s' (HEADER bp)) (NEXT_FREE s' bp)"
      by (simp add: nf)
    show "last_seg s' i = NULL \<or> far bp (UNPACK_SIZE s' (HEADER bp)) (last_seg s' i) \<or>
           (last_seg s' i = bp \<and> NEXT_FREE s' bp = NULL \<and> i = list_find (UNPACK_SIZE s' (HEADER bp)))"
      if "i < MAX_SEG" for i
      using ll[OF that] far_below[of "last_seg t i"] by (auto simp: ls nf sz')
  qed
  then show ?thesis by (simp add: s'_def)
qed

lemma tiled_start:
  assumes "tiled s p bs" and "unat (brk s) + 8 < 4294967296"
  shows "unat p \<le> unat (brk s) + 8"
proof (cases bs)
  case Nil
  with assms(1) have "p = brk s + 8" by auto
  moreover have "unat (brk s + of_nat 8) = unat (brk s) + 8"
    using assms(2) by (intro unat_plus_nowrap) simp
  ultimately show ?thesis by simp
next
  case (Cons x xs)
  with assms(1) show ?thesis by auto
qed

lemma tiled_last:
  assumes "tiled s p bs" and "bs \<noteq> []"
  shows "last bs + UNPACK_SIZE s (HEADER (last bs)) = brk s + 8 \<and>
         VALUE s (FOOTER s (last bs)) = VALUE s (HEADER (last bs))"
  using assms
proof (induction bs arbitrary: p)
  case Nil
  then show ?case by simp
next
  case (Cons x xs)
  have t: "tiled s (x + UNPACK_SIZE s (HEADER x)) xs"
    using Cons.prems(1) by (rule tiled_tail)
  show ?case
  proof (cases xs)
    case Nil
    with t have "x + UNPACK_SIZE s (HEADER x) = brk s + 8" by auto
    with Cons.prems Nil show ?thesis by auto
  next
    case (Cons c cs)
    with Cons.IH[OF t] show ?thesis by simp
  qed
qed

lemma tiled_nil: "tiled s p [] \<Longrightarrow> p = brk s + 8"
  by auto

lemma inv_below:
  assumes inv: "heap_inv s b0 bs fl" and q: "q \<in> set bs"
  shows "below (brk s + 8) q"
proof -
  note B = inv_block[OF inv q]
  have "unat (brk s + of_nat 8) = unat (brk s) + 8"
    using B(4) by (intro unat_plus_nowrap) simp
  then show ?thesis using B by (simp add: below_def)
qed

lemma inv_below_last:
  assumes inv: "heap_inv s b0 bs fl" and bs: "bs \<noteq> []" and q: "q \<in> set bs" and ne: "q \<noteq> last bs"
  shows "below (last bs) q"
proof -
  have t: "tiled s b0 bs" using inv by (simp add: heap_inv_def)
  have lb: "last bs \<in> set bs" using bs by simp
  note B = inv_block[OF inv q] and L = inv_block[OF inv lb]
  have "last bs + UNPACK_SIZE s (HEADER (last bs)) = brk s + 8"
    using tiled_last[OF t bs] by simp
  moreover have "unat (brk s + of_nat 8) = unat (brk s) + 8"
    using B(4) by (intro unat_plus_nowrap) simp
  moreover have "unat (last bs + UNPACK_SIZE s (HEADER (last bs)))
      = unat (last bs) + unat (UNPACK_SIZE s (HEADER (last bs)))"
    using L by (intro unat_add_nowrap) simp
  ultimately have e: "unat (last bs) + unat (UNPACK_SIZE s (HEADER (last bs))) = unat (brk s) + 8"
    by simp
  from tiled_disjoint[OF t q lb ne B(4)] e B
  show ?thesis by (auto simp: below_def)
qed

lemma new_block_place:
  fixes bsize :: "32 word" and s :: heap_state
  assumes inv: "heap_inv s b0 bs fl" and ok: "\<not> sbrk_fails s bsize"
    and al: "8 dvd bsize" and b16: "16 \<le> unat bsize"
  shows "unat (UNPACK_SIZE (snd (mm_malloc_place (fst (new_block bsize s)) bsize
            (snd (new_block bsize s)))) (HEADER (fst (new_block bsize s)))) < unat bsize + 16"
proof -
  have brk_le: "unat (brk s) \<le> unat (max_addr s)" and mx: "unat (max_addr s) + 8 < 4294967296"
    and t: "tiled s b0 bs" and b028: "28 \<le> unat b0"
    and sent: "VALUE s (PREV_FOOTER b0) = PACK OVERHEAD ALLOCATED"
    using inv by (simp_all add: heap_inv_def)
  have fits: "unat (brk s) + unat bsize \<le> unat (max_addr s)"
    using ok by (simp add: sbrk_fails_def)
  have brk8: "unat (brk s) + 8 < 4294967296" using brk_le mx by simp
  define bp0 where "bp0 = brk s + 8"
  define b where "b = unat bsize"
  define A where "A k = bp0 - 16 + of_nat k" for k :: nat
  have ob: "of_nat b = bsize" by (simp add: b_def)
  have b16': "16 \<le> b" using b16 by (simp add: b_def)
  have nz: "bsize \<noteq> 0" using b16 by auto
  have ub: "unat bp0 = unat (brk s) + 8"
  proof -
    have "unat (brk s + of_nat 8) = unat (brk s) + 8"
      using brk8 by (intro unat_plus_nowrap) simp
    then show ?thesis by (simp add: bp0_def)
  qed
  have lo: "16 \<le> unat bp0"
    using tiled_start[OF t brk8] b028 ub by simp
  have hi: "unat bp0 + b < 4294967296"
    using ub fits mx by (simp add: b_def)
  have ap: "apart (A j) (A k)" "apart (A k) (A j)" if "j + 4 \<le> k" "k \<le> b + 4" for j k
    unfolding A_def using that lo hi by (intro block_addr_apart; simp)+
  define s1 where "s1 = s\<lparr>brk := brk s + bsize\<rparr>"
  define s2 where "s2 = set_VALUE (A 4) bsize s1"
  define s3 where "s3 = set_VALUE (A b) bsize s2"
  define s4 where "s4 = set_VALUE (A (b + 4)) 1 s3"
  have hd: "HEADER bp0 = A 4"
    by (simp add: HEADER_def OVERHEAD_def WORD_def A_def)
  have nb: "new_block bsize s = coalesce bp0 s4"
  proof -
    have "unat (- 1 :: 32 word) = 4294967295" using unat_neg[of 1] by simp
    then have "unat (brk s) \<noteq> unat (- 1 :: 32 word)" using brk8 by simp
    then have nf: "brk s \<noteq> - 1" by auto
    have m: "mem_sbrk bsize s = (brk s, s1)"
      using ok by (simp add: mem_sbrk_def s1_def)
    have e2: "set_VALUE (HEADER bp0) (PACK bsize FREE) s1 = s2"
      by (simp add: s2_def hd PACK_def FREE_def)
    have sz2: "UNPACK_SIZE s2 (HEADER bp0) = bsize"
      by (simp add: s2_def hd UNPACK_SIZE_def VALUE_set_same mask_aligned' al)
    have f2: "FOOTER s2 bp0 = A b"
      by (simp add: FOOTER_def sz2 OVERHEAD_def A_def ob)
    have e3: "set_VALUE (FOOTER s2 bp0) (PACK bsize FREE) s2 = s3"
      by (simp add: s3_def f2 PACK_def FREE_def)
    have sz3: "UNPACK_SIZE s3 (HEADER bp0) = bsize"
      using sz2 ap(2)[of 4 b] b16'
      by (simp add: s3_def hd UNPACK_SIZE_def VALUE_set_apart)
    have h3: "NEXT_HEADER s3 bp0 = A (b + 4)"
      by (simp add: NEXT_HEADER_def sz3 OVERHEAD_def WORD_def A_def ob)
    have e4: "set_VALUE (NEXT_HEADER s3 bp0) (PACK 0 ALLOCATED) s3 = s4"
      by (simp add: s4_def h3 PACK_def ALLOCATED_def)
    have bp: "brk s + (OVERHEAD - 2 * WORD) = bp0"
      by (simp add: bp0_def OVERHEAD_def WORD_def)
    show ?thesis
      by (simp only: new_block_def Let_def m fst_conv snd_conv nf if_False bp e2 e3 e4)
  qed
  have v4: "VALUE s4 (A 4) = bsize" "VALUE s4 (A b) = bsize" "VALUE s4 (A (b + 4)) = 1"
    using ap(2)[of 4 b] ap(2)[of 4 "b + 4"] ap(2)[of b "b + 4"] b16'
    by (simp_all add: s4_def s3_def s2_def VALUE_set_same VALUE_set_apart)
  have old: "VALUE s4 q = VALUE s q"
    if "apart (A 4) q" "apart (A b) q" "apart (A (b + 4)) q" for q
    using that by (simp add: s4_def s3_def s2_def s1_def VALUE_set_apart VALUE_upd_fields)
  have tab: "last_seg s4 = last_seg s"
    by (simp add: s4_def s3_def s2_def s1_def set_VALUE_tables)
  have sz4: "UNPACK_SIZE s4 (HEADER bp0) = bsize"
    by (simp add: UNPACK_SIZE_def hd v4 mask_aligned' al)
  have nh4: "NEXT_HEADER s4 bp0 = A (b + 4)"
    by (simp add: NEXT_HEADER_def sz4 OVERHEAD_def WORD_def A_def ob)
  have pf: "PREV_FOOTER bp0 = A 0"
    by (simp add: PREV_FOOTER_def OVERHEAD_def A_def)
  have v0: "VALUE s4 (A 0) = VALUE s (A 0)"
    using ap(2)[of 0 4] ap(2)[of 0 b] ap(2)[of 0 "b + 4"] b16' by (intro old) simp_all
  have lastb: "below bp0 (last_seg s i)" if "i < MAX_SEG" for i
  proof (cases "last_seg s i = NULL")
    case True
    then show ?thesis by (simp add: below_def)
  next
    case False
    then have "last_seg s i \<in> set (fl i)"
      using inv_last(1)[OF inv that] by simp
    then have "last_seg s i \<in> set bs"
      by (rule inv_listed(1)[OF inv that])
    then show ?thesis
      using inv_below[OF inv] by (simp add: bp0_def)
  qed
  show ?thesis
  proof (cases "UNPACK_STATE s (PREV_FOOTER bp0) = FREE")
    case False
    then have left: "UNPACK_STATE s4 (PREV_FOOTER bp0) \<noteq> FREE"
      by (simp add: UNPACK_STATE_def pf v0)
    have right: "UNPACK_STATE s4 (NEXT_HEADER s4 bp0) \<noteq> FREE"
      by (simp add: UNPACK_STATE_def nh4 v4 FREE_def)
    have co: "coalesce bp0 s4 = (bp0, list_add bp0 s4)"
      using left right by (simp add: coalesce_def Let_def)
    have "unat (UNPACK_SIZE (snd (mm_malloc_place bp0 bsize (list_add bp0 s4))) (HEADER bp0))
           < unat bsize + 16"
    proof (rule place_after_add[where nsz = bsize])
      show "VALUE s4 (HEADER bp0) = bsize" by (simp add: hd v4)
      show "8 dvd bsize" by (rule al)
      show "16 \<le> unat bsize" by (rule b16)
      show "16 \<le> unat bp0" by (rule lo)
      show "unat bp0 + unat bsize < 4294967296" using hi by (simp add: b_def)
      show "VALUE s4 (HEADER bp0 + bsize) = PACK 0 ALLOCATED"
      proof -
        have "HEADER bp0 + bsize = A (b + 4)" by (simp add: hd A_def ob)
        then show ?thesis by (simp add: v4 PACK_def ALLOCATED_def)
      qed
      show "below bp0 (last_seg s4 i)" if "i < MAX_SEG" for i
        using lastb[OF that] by (simp add: tab)
      show "8 dvd bsize" by (rule al)
      show "bsize \<noteq> 0" by (rule nz)
      show "unat bsize \<le> unat bsize" by simp
    qed
    then show ?thesis by (simp add: nb co)
  next
    case True
    have bsne: "bs \<noteq> []"
    proof
      assume "bs = []"
      with t have "b0 = bp0" by (auto simp: bp0_def)
      with sent True show False
        by (simp add: UNPACK_STATE_def PACK_def OVERHEAD_def ALLOCATED_def FREE_def)
    qed
    define lb where "lb = last bs"
    define Lw where "Lw = UNPACK_SIZE s (HEADER lb)"
    define L where "L = unat Lw"
    define B where "B k = lb - 16 + of_nat k" for k :: nat
    define nsz where "nsz = Lw + bsize"
    have lbs: "lb \<in> set bs" using bsne by (simp add: lb_def)
    note LB = inv_block[OF inv lbs]
    have oL: "of_nat L = Lw" by (simp add: L_def)
    have L16: "16 \<le> L" using LB(2) by (simp add: L_def Lw_def)
    have dvdL: "8 dvd Lw" by (simp add: Lw_def UNPACK_SIZE_def dvd_unpack')
    have e: "lb + Lw = bp0" and ft: "VALUE s (FOOTER s lb) = VALUE s (HEADER lb)"
      using tiled_last[OF t bsne] by (simp_all add: lb_def Lw_def bp0_def)
    have ue: "unat lb + L = unat bp0"
    proof -
      have "unat (lb + Lw) = unat lb + unat Lw"
        using LB by (intro unat_add_nowrap) (simp add: Lw_def)
      then show ?thesis by (simp add: e L_def)
    qed
    have AB: "A k = B (L + k)" for k
      by (simp add: A_def B_def e[symmetric] oL)
    have lo': "16 \<le> unat lb" using LB(1) by simp
    have hi': "unat lb + (L + b) < 4294967296" using ue hi by simp
    have un: "unat nsz = L + b"
    proof -
      have "unat (Lw + bsize) = unat Lw + unat bsize"
        using hi' by (intro unat_add_nowrap) (simp add: L_def b_def)
      then show ?thesis by (simp add: nsz_def L_def b_def)
    qed
    have on: "of_nat (L + b) = nsz" by (simp add: nsz_def oL ob)
    have dvdn: "8 dvd nsz" using dvdL al by (simp add: nsz_def)
    have bp: "apart (B j) (B k)" "apart (B k) (B j)" if "j + 4 \<le> k" "k \<le> L + b + 4" for j k
      unfolding B_def using that lo' hi' by (intro block_addr_apart; simp)+
    have fb: "apart (q - 4) (B k)" "apart (q - 8) (B k)"
      if "below lb q" "q \<noteq> NULL" "4 \<le> k" "k \<le> L + b + 4" for q k
    proof -
      have "far lb nsz q" using that by (simp add: below_def far_def)
      then show "apart (q - 4) (B k)" "apart (q - 8) (B k)"
        unfolding B_def using that lo' hi' un
        by (intro far_apart(1)[where sz = nsz] far_apart(2)[where sz = nsz]; simp)+
    qed
    have oldB: "VALUE s4 (B k) = VALUE s (B k)" if "k \<le> L" for k
      using that bp(2)[of k "L + 4"] bp(2)[of k "L + b"] bp(2)[of k "L + (b + 4)"] b16'
      by (intro old) (simp_all add: AB)
    have hl: "HEADER lb = B 4" and lk: "lb - 8 = B 8" "lb - 4 = B 12"
      by (simp_all add: HEADER_def OVERHEAD_def WORD_def B_def)
    have fl': "FOOTER s lb = B L"
      by (simp add: FOOTER_def Lw_def[symmetric] OVERHEAD_def B_def oL)
    have pfB: "PREV_FOOTER bp0 = B L"
      by (simp add: pf AB)
    have free_lb: "UNPACK_STATE s (HEADER lb) = FREE"
      using True ft by (simp add: UNPACK_STATE_def pfB fl')
    have szB: "UNPACK_SIZE s (B L) = Lw"
      using ft by (simp add: UNPACK_SIZE_def fl' Lw_def)
    have pb: "PREV_BLOCK s4 bp0 = lb"
    proof -
      have "UNPACK_SIZE s4 (B L) = Lw"
        using szB oldB[of L] by (simp add: UNPACK_SIZE_def)
      then have "PREV_BLOCK s4 bp0 = bp0 - Lw"
        by (simp add: PREV_BLOCK_def pfB)
      then show ?thesis
        by (simp add: e[symmetric])
    qed
    \<comment> \<open>the last block is on the list of its size\<close>
    obtain j where j: "j < MAX_SEG" "lb \<in> set (fl j)"
    proof -
      have "lb \<in> set (filter (\<lambda>b. UNPACK_STATE s (HEADER b) = FREE) bs)"
        using lbs free_lb by simp
      moreover have "set (concat (map fl [0..<MAX_SEG])) =
          set (filter (\<lambda>b. UNPACK_STATE s (HEADER b) = FREE) bs)"
        using inv unfolding heap_inv_def by blast
      ultimately have "lb \<in> set (concat (map fl [0..<MAX_SEG]))" by blast
      then show ?thesis using that by auto
    qed
    have belowl: "below lb q" if "q \<in> insert NULL (set (fl i)) - {lb}" "i < MAX_SEG" for q i
    proof (cases "q = NULL")
      case True
      then show ?thesis by (simp add: below_def)
    next
      case False
      then have "q \<in> set bs" "q \<noteq> lb"
        using that inv_listed(1)[OF inv that(2)] by auto
      then show ?thesis
        using inv_below_last[OF inv bsne] by (simp add: lb_def)
    qed
    define pv where "pv = PREV_FREE s lb"
    define nx where "nx = NEXT_FREE s lb"
    have bpv: "below lb pv" and bnx: "below lb nx"
      using inv_links[OF inv j] belowl[OF _ j(1)] by (simp_all add: pv_def nx_def)
    have pv4: "PREV_FREE s4 lb = pv" and nx4: "NEXT_FREE s4 lb = nx"
      using oldB[of 8] oldB[of 12] L16
      by (simp_all add: PREV_FREE_def NEXT_FREE_def WORD_def lk pv_def nx_def)
    have szl4: "UNPACK_SIZE s4 (HEADER lb) = Lw"
      using oldB[of 4] L16 by (simp add: UNPACK_SIZE_def hl Lw_def)
    define t1 where "t1 = list_remove lb s4"
    have k1: "VALUE t1 (B k) = VALUE s4 (B k)" if "4 \<le> k" "k \<le> L + b + 4" for k
      unfolding t1_def
    proof (rule VALUE_list_remove)
      show "PREV_FREE s4 lb = NULL \<or> apart (PREV_FREE s4 lb - 4) (B k)"
        using fb(1)[OF bpv _ that] by (auto simp: pv4)
      show "NEXT_FREE s4 lb = NULL \<or> apart (NEXT_FREE s4 lb - 8) (B k)"
        using fb(2)[OF bnx _ that] by (auto simp: nx4)
    qed
    have l1: "last_seg t1 i = (if nx = NULL \<and> i = list_find Lw then pv else last_seg s i)" for i
      by (simp add: t1_def last_seg_list_remove nx4 pv4 szl4 tab)
    have sz1: "UNPACK_SIZE t1 (HEADER lb) = Lw"
      using k1[of 4] szl4 by (simp add: UNPACK_SIZE_def hl)
    have st1: "UNPACK_STATE t1 (HEADER lb) = FREE"
      using k1[of 4] oldB[of 4] free_lb L16 by (simp add: UNPACK_STATE_def hl)
    have nh1: "NEXT_HEADER t1 lb = B (L + 4)"
      by (simp add: NEXT_HEADER_def sz1 OVERHEAD_def WORD_def B_def oL)
    have vn1: "VALUE t1 (B (L + 4)) = bsize"
      using k1[of "L + 4"] v4(1) by (simp add: AB)
    have ns: "UNPACK_SIZE t1 (HEADER lb) + UNPACK_SIZE t1 (NEXT_HEADER t1 lb) = nsz"
      unfolding sz1 nh1 by (simp add: UNPACK_SIZE_def vn1 mask_aligned' al nsz_def)
    define t2 where "t2 = set_VALUE (B 4) nsz t1"
    have r2: "REPACK_SIZE (HEADER lb) nsz t1 = t2"
      using st1 by (simp add: REPACK_SIZE_def PACK_def FREE_def t2_def hl)
    have sz2: "UNPACK_SIZE t2 (HEADER lb) = nsz"
      by (simp add: UNPACK_SIZE_def hl t2_def VALUE_set_same mask_aligned' dvdn)
    have f2: "FOOTER t2 lb = B (L + b)"
      by (simp add: FOOTER_def sz2 OVERHEAD_def B_def on[symmetric])
    have vf2: "VALUE t2 (B (L + b)) = bsize"
      using bp(1)[of 4 "L + b"] k1[of "L + b"] v4(2) L16 by (simp add: t2_def VALUE_set_apart AB)
    define t3 where "t3 = set_VALUE (B (L + b)) nsz t2"
    have r3: "REPACK_SIZE (FOOTER t2 lb) nsz t2 = t3"
      by (simp add: REPACK_SIZE_def f2 UNPACK_STATE_def vf2 aligned_state al PACK_def t3_def)
    have h3: "VALUE t3 (HEADER lb) = nsz"
      using bp(2)[of 4 "L + b"] L16 by (simp add: t3_def t2_def hl VALUE_set_apart VALUE_set_same)
    have sz3: "UNPACK_SIZE t3 (HEADER lb) = nsz"
      by (simp add: UNPACK_SIZE_def h3 mask_aligned' dvdn)
    have nh3: "NEXT_HEADER t3 lb = B (L + b + 4)"
      by (simp add: NEXT_HEADER_def sz3 OVERHEAD_def WORD_def B_def on[symmetric])
    have vn3: "VALUE t3 (B (L + b + 4)) = 1"
      using bp(1)[of "L + b" "L + b + 4"] bp(1)[of 4 "L + b + 4"] k1[of "L + b + 4"] v4(3) L16
      by (simp add: t3_def t2_def VALUE_set_apart AB add.assoc)
    have right: "UNPACK_STATE t3 (NEXT_HEADER t3 lb) \<noteq> FREE"
      by (simp add: UNPACK_STATE_def nh3 vn3 FREE_def)
    have left: "UNPACK_STATE s4 (PREV_FOOTER bp0) = FREE"
      using True by (simp add: UNPACK_STATE_def pf v0)
    have co: "coalesce bp0 s4 = (lb, list_add lb t3)"
      unfolding coalesce_def Let_def
      by (simp only: left simp_thms if_True pb t1_def[symmetric] ns r2 r3 fst_conv snd_conv right
          if_False)
    have l3: "last_seg t3 i = last_seg t1 i" for i
      by (simp add: t3_def t2_def set_VALUE_tables)
    have "unat (UNPACK_SIZE (snd (mm_malloc_place lb bsize (list_add lb t3))) (HEADER lb))
           < unat bsize + 16"
    proof (rule place_after_add[where nsz = nsz])
      show "VALUE t3 (HEADER lb) = nsz" by (rule h3)
      show "8 dvd nsz" by (rule dvdn)
      show "16 \<le> unat nsz" using un L16 by simp
      show "16 \<le> unat lb" by (rule lo')
      show "unat lb + unat nsz < 4294967296" using hi' un by simp
      show "VALUE t3 (HEADER lb + nsz) = PACK 0 ALLOCATED"
      proof -
        have "HEADER lb + nsz = B (L + b + 4)" by (simp add: hl B_def on[symmetric])
        then show ?thesis by (simp add: vn3 PACK_def ALLOCATED_def)
      qed
      show "below lb (last_seg t3 i)" if i: "i < MAX_SEG" for i
      proof (cases "nx = NULL \<and> i = list_find Lw")
        case True
        then show ?thesis using bpv by (simp add: l3 l1)
      next
        case False
        have "last_seg s i \<noteq> lb"
        proof
          assume eq: "last_seg s i = lb"
          have nn: "lb \<noteq> NULL" using lo' by (auto simp: NULL_def)
          then have "lb \<in> set (fl i)" using inv_last(1)[OF inv i] eq by auto
          then have "list_find Lw = i"
            using inv_listed(3)[OF inv i] by (simp add: Lw_def)
          moreover have "nx = NULL"
            using inv_last(2)[OF inv i] eq nn by (simp add: nx_def)
          ultimately show False using False by simp
        qed
        then have "below lb (last_seg s i)"
          using inv_last(1)[OF inv i] by (intro belowl[OF _ i]) simp
        then show ?thesis using False by (auto simp: l3 l1)
      qed
      show "8 dvd bsize" by (rule al)
      show "bsize \<noteq> 0" by (rule nz)
      show "unat bsize \<le> unat nsz" using un by (simp add: b_def)
    qed
    then show ?thesis by (simp add: nb co)
  qed
qed

subsection \<open>The bound\<close>

lemma align_up_ge: "m \<le> align_up m"
  unfolding align_up_def by arith

lemma ALIGN_unat:
  assumes "unat n + 23 < 4294967296"
  shows "unat (ALIGN (n + OVERHEAD)) = align_up (unat n + 16)"
proof -
  have "unat (n + of_nat 23) = unat n + 23"
    using assms by (rule unat_plus_nowrap)
  then have "unat (n + 16 + 7) = unat n + 23"
    by (simp add: add.assoc)
  then show ?thesis
    by (simp only: ALIGN_def OVERHEAD_def unat_and_not7 align_up_def) simp
qed

lemma mm_malloc_place_fst: "fst (mm_malloc_place bp sz s) = bp"
  by (simp add: mm_malloc_place_def Let_def)

lemma heap1_inv: "heap_inv heap1 0x10020 [] (\<lambda>_. [])"
proof -
  have a: "28 \<le> unat (0x10020 :: addr)" "unat (brk heap1) \<le> unat (max_addr heap1)"
    "unat (max_addr heap1) + 8 < 4294967296"
    by (simp_all add: heap1_eq store_simps)
  have b: "VALUE heap1 (HEADER (0x10020 - OVERHEAD)) = PACK OVERHEAD ALLOCATED"
    "VALUE heap1 (PREV_FOOTER 0x10020) = PACK OVERHEAD ALLOCATED"
    by (simp_all add: heap1_eq macro_defs store_simps)
  have c: "tiled heap1 0x10020 []"
    by (simp add: heap1_eq macro_defs store_simps)
  have e: "dchain heap1 NULL (first_seg heap1 i) [] (last_seg heap1 i)" for i
    by (simp add: heap1_eq macro_defs store_simps)
  have g: "concat (map (\<lambda>_. []) [0..<MAX_SEG]) = ([] :: addr list)"
    by simp
  show ?thesis
    unfolding heap_inv_def g using a b c e by simp
qed

lemma heap4_inv:
  "heap_inv heap4 0x10020 [0x10020, 0x10040] (\<lambda>i. if i = 5 then [0x10040] else [])"
proof -
  have a: "28 \<le> unat (0x10020 :: addr)" "unat (brk heap4) \<le> unat (max_addr heap4)"
    "unat (max_addr heap4) + 8 < 4294967296"
    by (simp_all add: heap4_eq store_simps)
  have b: "VALUE heap4 (HEADER (0x10020 - OVERHEAD)) = PACK OVERHEAD ALLOCATED"
    "VALUE heap4 (PREV_FOOTER 0x10020) = PACK OVERHEAD ALLOCATED"
    by (simp_all add: heap4_eq macro_defs store_simps)
  have c: "tiled heap4 0x10020 [0x10020, 0x10040]"
    by (simp add: heap4_eq macro_defs store_simps)
  have d: "no_adjacent_free heap4 [0x10020, 0x10040]"
    by (simp add: heap4_eq macro_defs store_simps)
  have e: "dchain heap4 NULL (first_seg heap4 i) (if i = 5 then [0x10040] else []) (last_seg heap4 i)"
    for i
    by (simp add: heap4_eq macro_defs store_simps)
  have f: "list_find (UNPACK_SIZE heap4 (HEADER 0x10040)) = 5"
    by (simp add: heap4_eq macro_defs store_simps list_find_cases)
  have g: "concat (map (\<lambda>i. if i = 5 then [0x10040] else []) [0..<MAX_SEG]) = [0x10040 :: addr]"
    by (simp add: MAX_SEG_def upt_rec)
  have h: "filter (\<lambda>b. UNPACK_STATE heap4 (HEADER b) = FREE) [0x10020, 0x10040] = [0x10040]"
    by (simp add: heap4_eq macro_defs store_simps)
  show ?thesis
    unfolding heap_inv_def g h using a b c d e f by simp
qed

lemma malloc_block_size_lt:
  assumes inv: "heap_inv s b0 bs fl" and n: "n \<noteq> 0"
    and m: "mm_malloc n s = Some (bp, s')" and nn: "bp \<noteq> NULL"
  shows "unat (UNPACK_SIZE s' (HEADER bp)) < align_up (unat n + unat OVERHEAD) + unat OVERHEAD"
proof (cases "unat n + 23 < 4294967296")
  case False
  have "unat (UNPACK_SIZE s' (HEADER bp)) < 4294967296"
    using unsigned_less[of "UNPACK_SIZE s' (HEADER bp)"] by simp
  moreover have "unat n + 16 \<le> align_up (unat n + 16)"
    by (rule align_up_ge)
  ultimately show ?thesis
    using False by (simp add: OVERHEAD_def)
next
  case True
  define bsize where "bsize = ALIGN (n + OVERHEAD)"
  have ub: "unat bsize = align_up (unat n + 16)"
    unfolding bsize_def using True by (rule ALIGN_unat)
  have al: "8 dvd bsize"
    by (simp add: bsize_def ALIGN_def dvd_unpack')
  have b16: "16 \<le> unat bsize"
    using align_up_ge[of "unat n + 16"] by (simp add: ub)
  have nz: "bsize \<noteq> 0" using b16 by auto
  have ch: "\<forall>i<MAX_SEG. chain s (first_seg s i) (fl i)"
    using inv dchain_chain by (auto simp: heap_inv_def)
  obtain p where p: "find_block s bsize = Some p"
    using find_block_search[OF ch] by blast
  have bound: "unat (UNPACK_SIZE s' (HEADER bp)) < unat bsize + 16"
  proof (cases "p = NULL")
    case False
    then have "mm_malloc_place p bsize s = (bp, s')"
      using m n p by (simp add: mm_malloc_def Let_def bsize_def[symmetric])
    then have "bp = p" "s' = snd (mm_malloc_place p bsize s)"
      using mm_malloc_place_fst[of p bsize s] by simp_all
    then show ?thesis
      using place_found[OF inv p False al nz] by simp
  next
    case True
    define r where "r = new_block bsize s"
    have e: "(if fst r = NULL then Some (NULL, snd r)
              else Some (mm_malloc_place (fst r) bsize (snd r))) = Some (bp, s')"
      using m n p True by (auto simp: mm_malloc_def Let_def bsize_def[symmetric] r_def split: if_splits)
    have rn: "fst r \<noteq> NULL"
      using e nn by (auto split: if_splits)
    then have ok: "\<not> sbrk_fails s bsize"
      using new_block_fails[of s bsize] by (auto simp: r_def)
    have "mm_malloc_place (fst r) bsize (snd r) = (bp, s')"
      using e rn by simp
    then have "bp = fst r" "s' = snd (mm_malloc_place (fst r) bsize (snd r))"
      using mm_malloc_place_fst[of "fst r" bsize "snd r"] by simp_all
    then show ?thesis
      using new_block_place[OF inv ok al b16] by (simp add: r_def)
  qed
  then show ?thesis
    by (simp add: ub OVERHEAD_def)
qed

text \<open>
  In a well-formed heap, for every \<open>n > 0\<close>, if \<open>mm_malloc(n)\<close> returns a non-null
  pointer then the size in the header of the returned block is strictly less than
  \<open>align_up(n + OVERHEAD, 8) + OVERHEAD\<close>: \<open>split\<close> carves off a remainder as soon as
  \<open>OVERHEAD\<close> bytes are left over. Sizes being multiples of 8, it is at most
  \<open>align_up(n + OVERHEAD, 8) + 8\<close>. The sizes are read as natural numbers, so the bound is
  also stated for requests whose rounded size does not fit 32 bits.
\<close>

lemma malloc_block_size_wellformed:
  assumes inv: "heap_inv s b0 bs fl" and n: "n \<noteq> 0"
    and m: "mm_malloc n s = Some (bp, s')" and nn: "bp \<noteq> NULL"
  shows "unat (UNPACK_SIZE s' (HEADER bp)) < align_up (unat n + unat OVERHEAD) + unat OVERHEAD \<and>
         unat (UNPACK_SIZE s' (HEADER bp)) \<le> align_up (unat n + unat OVERHEAD) + 8"
proof -
  have lt: "unat (UNPACK_SIZE s' (HEADER bp)) < align_up (unat n + unat OVERHEAD) + unat OVERHEAD"
    using assms by (rule malloc_block_size_lt)
  have "8 dvd unat (UNPACK_SIZE s' (HEADER bp))"
    by (intro dvd8_unat) (simp add: UNPACK_SIZE_def dvd_unpack')
  moreover have "8 dvd align_up (unat n + unat OVERHEAD)"
    by (simp add: align_up_def)
  ultimately have "unat (UNPACK_SIZE s' (HEADER bp)) \<le> align_up (unat n + unat OVERHEAD) + 8"
    using lt unfolding OVERHEAD_def by (elim dvdE) (simp, arith)
  with lt show ?thesis by simp
qed

section \<open>Alignment of the returned addresses\<close>

lemma malloc_heap1_600:
  "mm_malloc 600 heap1 = Some (65568,
   (set_VALUE 66168 617 (set_VALUE 65556 617 (set_VALUE 65560 0 (set_VALUE 65564 0
   (set_VALUE 66172 1 (set_VALUE 66168 616 (set_VALUE 65556 616 (set_VALUE 65556 1
   (set_VALUE 65552 17 (set_VALUE 65540 17
     \<lparr>mem = \<lambda>_. 0, first_seg = \<lambda>_. 0, last_seg = \<lambda>_. 0, brk = 66176, max_addr = 131072, heap_lo = 65536\<rparr>)))))))))))"
  by (simp add: heap1_eq ev cong: let_weak_cong)

lemma heap_a_eq:
  "heap_a =
   (set_VALUE 66168 617 (set_VALUE 65556 617 (set_VALUE 65560 0 (set_VALUE 65564 0
   (set_VALUE 66172 1 (set_VALUE 66168 616 (set_VALUE 65556 616 (set_VALUE 65556 1
   (set_VALUE 65552 17 (set_VALUE 65540 17
     \<lparr>mem = \<lambda>_. 0, first_seg = \<lambda>_. 0, last_seg = \<lambda>_. 0, brk = 66176, max_addr = 131072, heap_lo = 65536\<rparr>))))))))))"
  by (simp add: heap_a_def malloc_heap1_600)

lemma malloc_heap_a:
  "mm_malloc 1000 heap_a = Some (66184,
   (set_VALUE 67184 1017 (set_VALUE 66172 1017 (set_VALUE 66176 0 (set_VALUE 66180 0
   (set_VALUE 67188 1 (set_VALUE 67184 1016 (set_VALUE 66172 1016 (set_VALUE 66168 617
   (set_VALUE 65556 617 (set_VALUE 65560 0 (set_VALUE 65564 0 (set_VALUE 66172 1
   (set_VALUE 66168 616 (set_VALUE 65556 616 (set_VALUE 65556 1 (set_VALUE 65552 17
   (set_VALUE 65540 17
     \<lparr>mem = \<lambda>_. 0, first_seg = \<lambda>_. 0, last_seg = \<lambda>_. 0, brk = 67192, max_addr = 131072, heap_lo = 65536\<rparr>))))))))))))))))))"
  by (simp add: heap_a_eq ev cong: let_weak_cong)

lemma heap_ab_eq:
  "heap_ab =
   (set_VALUE 67184 1017 (set_VALUE 66172 1017 (set_VALUE 66176 0 (set_VALUE 66180 0
   (set_VALUE 67188 1 (set_VALUE 67184 1016 (set_VALUE 66172 1016 (set_VALUE 66168 617
   (set_VALUE 65556 617 (set_VALUE 65560 0 (set_VALUE 65564 0 (set_VALUE 66172 1
   (set_VALUE 66168 616 (set_VALUE 65556 616 (set_VALUE 65556 1 (set_VALUE 65552 17
   (set_VALUE 65540 17
     \<lparr>mem = \<lambda>_. 0, first_seg = \<lambda>_. 0, last_seg = \<lambda>_. 0, brk = 67192, max_addr = 131072, heap_lo = 65536\<rparr>)))))))))))))))))"
  by (simp add: heap_ab_def malloc_heap_a)

lemma realloc_heap_ab:
  "mm_realloc 0x10020 16 heap_ab = Some (65568,
   (set_VALUE 65576 0 (set_VALUE 65580 0 (set_VALUE 66168 600 (set_VALUE 65572 600
   (set_VALUE 65568 17 (set_VALUE 65556 17 (set_VALUE 67184 1017 (set_VALUE 66172 1017
   (set_VALUE 66176 0 (set_VALUE 66180 0 (set_VALUE 67188 1 (set_VALUE 67184 1016
   (set_VALUE 66172 1016 (set_VALUE 66168 617 (set_VALUE 65556 617 (set_VALUE 65560 0
   (set_VALUE 65564 0 (set_VALUE 66172 1 (set_VALUE 66168 616 (set_VALUE 65556 616
   (set_VALUE 65556 1 (set_VALUE 65552 17 (set_VALUE 65540 17
     \<lparr>mem = \<lambda>_. 0, first_seg = (\<lambda>_. 0)(10 := 65584), last_seg = (\<lambda>_. 0)(10 := 65584), brk = 67192, max_addr = 131072, heap_lo = 65536\<rparr>))))))))))))))))))))))))"
  by (simp add: heap_ab_eq ev cong: let_weak_cong)

lemma heap_shrunk_eq:
  "heap_shrunk =
   (set_VALUE 65576 0 (set_VALUE 65580 0 (set_VALUE 66168 600 (set_VALUE 65572 600
   (set_VALUE 65568 17 (set_VALUE 65556 17 (set_VALUE 67184 1017 (set_VALUE 66172 1017
   (set_VALUE 66176 0 (set_VALUE 66180 0 (set_VALUE 67188 1 (set_VALUE 67184 1016
   (set_VALUE 66172 1016 (set_VALUE 66168 617 (set_VALUE 65556 617 (set_VALUE 65560 0
   (set_VALUE 65564 0 (set_VALUE 66172 1 (set_VALUE 66168 616 (set_VALUE 65556 616
   (set_VALUE 65556 1 (set_VALUE 65552 17 (set_VALUE 65540 17
     \<lparr>mem = \<lambda>_. 0, first_seg = (\<lambda>_. 0)(10 := 65584), last_seg = (\<lambda>_. 0)(10 := 65584), brk = 67192, max_addr = 131072, heap_lo = 65536\<rparr>)))))))))))))))))))))))"
  by (simp add: heap_shrunk_def realloc_heap_ab)

lemma heap_written_eq:
  "heap_written =
   (set_VALUE 65580 65588 (set_VALUE 65576 720 (set_VALUE 65576 0 (set_VALUE 65580 0
   (set_VALUE 66168 600 (set_VALUE 65572 600 (set_VALUE 65568 17 (set_VALUE 65556 17
   (set_VALUE 67184 1017 (set_VALUE 66172 1017 (set_VALUE 66176 0 (set_VALUE 66180 0
   (set_VALUE 67188 1 (set_VALUE 67184 1016 (set_VALUE 66172 1016 (set_VALUE 66168 617
   (set_VALUE 65556 617 (set_VALUE 65560 0 (set_VALUE 65564 0 (set_VALUE 66172 1
   (set_VALUE 66168 616 (set_VALUE 65556 616 (set_VALUE 65556 1 (set_VALUE 65552 17
   (set_VALUE 65540 17
     \<lparr>mem = \<lambda>_. 0, first_seg = (\<lambda>_. 0)(10 := 65584), last_seg = (\<lambda>_. 0)(10 := 65584), brk = 67192, max_addr = 131072, heap_lo = 65536\<rparr>)))))))))))))))))))))))))"
  by (simp add: heap_written_def heap_shrunk_eq)

text \<open>
  C8 fails on the code, by the call of \<open>split\<close> with the caller's size on the shrink path
  of \<open>mm_realloc\<close> (see C2). \<open>mm_realloc(a, 16)\<close> on the block of 600 payload bytes returns
  \<open>a\<close> and leaves a free block at \<open>a + 16\<close>, whose header and links are the words at
  \<open>a + 4\<close>, \<open>a + 8\<close> and \<open>a + 12\<close>, inside the 16 bytes handed to the client. Once the client
  has stored 720 at \<open>a + 8\<close> and the address \<open>a + 20\<close> at \<open>a + 12\<close>, \<open>mm_malloc(700)\<close> follows
  the link and returns \<open>a + 20 = 0x10034\<close>, which is not a multiple of 8.
\<close>

theorem malloc_returns_misaligned:
  "(case mm_realloc 0x10020 16 heap_ab of
      None \<Rightarrow> False
    | Some r \<Rightarrow> fst r = 0x10020) \<and>
   (case mm_malloc 700 heap_written of
      None \<Rightarrow> False
    | Some r \<Rightarrow> fst r = 0x10034 \<and> fst r \<noteq> NULL \<and> \<not> 8 dvd unat (fst r))"
proof -
  have "mm_realloc 0x10020 16 heap_ab \<noteq> None \<and> fst (the (mm_realloc 0x10020 16 heap_ab)) = 0x10020"
    by (simp add: realloc_heap_ab)
  moreover have "\<exists>s'. mm_malloc 700 heap_written = Some (0x10034, s')"
    by (simp add: heap_written_eq ev cong: let_weak_cong)
  ultimately show ?thesis
    by (auto simp: NULL_def)
qed

section \<open>The size of the returned block after a shrinking \<open>mm_realloc\<close>\<close>

lemma heap_forged_eq:
  "heap_forged =
   (set_VALUE 66316 66560 (set_VALUE 66312 65576 (set_VALUE 66308 0 (set_VALUE 65572 736
   (set_VALUE 65576 0 (set_VALUE 65580 0 (set_VALUE 66168 600 (set_VALUE 65572 600
   (set_VALUE 65568 17 (set_VALUE 65556 17 (set_VALUE 67184 1017 (set_VALUE 66172 1017
   (set_VALUE 66176 0 (set_VALUE 66180 0 (set_VALUE 67188 1 (set_VALUE 67184 1016
   (set_VALUE 66172 1016 (set_VALUE 66168 617 (set_VALUE 65556 617 (set_VALUE 65560 0
   (set_VALUE 65564 0 (set_VALUE 66172 1 (set_VALUE 66168 616 (set_VALUE 65556 616
   (set_VALUE 65556 1 (set_VALUE 65552 17 (set_VALUE 65540 17
     \<lparr>mem = \<lambda>_. 0, first_seg = (\<lambda>_. 0)(10 := 65584), last_seg = (\<lambda>_. 0)(10 := 65584), brk = 67192, max_addr = 131072, heap_lo = 65536\<rparr>)))))))))))))))))))))))))))"
  by (simp add: heap_forged_def heap_shrunk_eq)

text \<open>
  C9 fails on the code, by the call of \<open>split\<close> with the caller's size on the shrink path
  of \<open>mm_realloc\<close> (see C2 and C8): the free block that \<open>mm_realloc(a, 16)\<close> leaves at
  \<open>a + 16 = 0x10030\<close> has its header at \<open>a + 4\<close>, inside the 16 bytes handed to the client.
  The client stores 736 there, and in the payload of \<open>b\<close> the words of a free block of size
  0 at \<open>a + 752\<close> with the links \<open>a + 8\<close> and \<open>0x10400\<close>. Then \<open>mm_malloc(700)\<close> takes the block
  at \<open>0x10030\<close>, splits it at 720, and merging the remainder of 16 bytes with the block
  after it unlinks that block: the store to the link of its predecessor writes \<open>0x10400\<close>
  into the header of the block being returned. The block returned for 700 bytes has the
  size 66560 in its header, where the bound is \<open>align_up(700 + 16, 8) + 16 = 736\<close>.
\<close>

theorem malloc_block_too_large:
  "(case mm_malloc 700 heap_forged of
      None \<Rightarrow> False
    | Some r \<Rightarrow> fst r = 0x10030 \<and> fst r \<noteq> NULL \<and>
        UNPACK_SIZE (snd r) (HEADER (fst r)) = 66560 \<and>
        \<not> unat (UNPACK_SIZE (snd r) (HEADER (fst r)))
            < align_up (unat (700 :: 32 word) + unat OVERHEAD) + unat OVERHEAD)"
proof -
  have "\<exists>s'. mm_malloc 700 heap_forged = Some (0x10030, s') \<and> VALUE s' (HEADER 0x10030) = 66560"
    by (simp add: heap_forged_eq ev cong: let_weak_cong)
  then obtain s' where m: "mm_malloc 700 heap_forged = Some (0x10030, s')"
    and v: "VALUE s' (HEADER 0x10030) = 66560"
    by blast
  have "UNPACK_SIZE s' (HEADER 0x10030) = 66560"
    by (simp add: UNPACK_SIZE_def v)
  then show ?thesis
    by (simp add: m NULL_def align_up_def OVERHEAD_def)
qed

end
